theory Spec2Isabelle
  imports Main "HOL-Library.Word"
begin

unbundle bit_operations_syntax

section \<open>Outcomes of Go calls\<close>

text \<open>A call either returns a value, or panics (index out of range, nil dereference, a
  method call on a nil interface value), or, for the recursive functions that are run
  with a step budget, exhausts the budget.\<close>

datatype 'a go = Done 'a | Panic | OutOfFuel

type_synonym byte = "8 word"
type_synonym addr = nat

section \<open>The alphabet map\<close>

text \<open>\<open>type CharMap [256]int\<close>: an array indexed by a byte.\<close>

type_synonym CharMap = "byte \<Rightarrow> int"

definition NewAlphaCharMap :: CharMap where
  "NewAlphaCharMap =
     (let cm0 = (\<lambda>_. 0);
          cm1 = fold (\<lambda>i cm. cm(of_nat i := int i - 65 + 1)) [65 ..< 91] cm0;
          cm2 = fold (\<lambda>i cm. cm(of_nat i := int i - 97 + 1)) [97 ..< 123] cm1;
          cm3 = cm2(45 := 27);
          cm4 = cm3(39 := 28)
      in cm4)"

definition cm_max :: "CharMap \<Rightarrow> int" where
  "cm_max cm = fold (\<lambda>i r. if cm (of_nat i) > r then cm (of_nat i) else r) [0 ..< 256] 0"

section \<open>Arena nodes and the heap\<close>

record simple =
  isWord :: bool
  children :: "addr option list"

text \<open>The Go heap of \<open>simple\<close> structs: \<open>store\<close> maps an address to the struct there and
  \<open>htop\<close> is the next address an allocation returns.\<close>

record heap =
  store :: "addr \<Rightarrow> simple"
  htop :: addr

definition newSimple :: "int \<Rightarrow> heap \<Rightarrow> (addr \<times> heap) go" where
  "newSimple n h =
     (if n < 0 then Panic
      else Done (htop h,
        h\<lparr>store := (store h)(htop h := \<lparr>isWord = False, children = replicate (nat n) None\<rparr>),
          htop := Suc (htop h)\<rparr>))"

record simpleNode =
  sn_s :: "addr option"
  sn_cm :: CharMap

section \<open>The packed table\<close>

record packedTable =
  cells :: "32 word list"
  tbl_cm :: CharMap

definition Key :: "packedTable \<Rightarrow> int \<Rightarrow> byte go" where
  "Key p i =
     (if i < 0 \<or> int (length (cells p)) \<le> i then Panic
      else Done (ucast (cells p ! nat i AND 255)))"

definition Value :: "packedTable \<Rightarrow> int \<Rightarrow> 32 word go" where
  "Value p i =
     (if i < 0 \<or> int (length (cells p)) \<le> i then Panic
      else Done (drop_bit 8 (cells p ! nat i)))"

record packedNode =
  pn_tbl :: "packedTable option"
  pn_idx :: int

definition indexAt :: "packedTable \<Rightarrow> int \<Rightarrow> int \<Rightarrow> int go" where
  "indexAt t i c =
     (let k = i + c in
      if k \<ge> int (length (cells t)) then Done (- 1)
      else case Key t k of
        Done key \<Rightarrow>
          if key \<noteq> (of_int (c + 1) :: byte) then Done (- 1)
          else (case Value t k of Done v \<Rightarrow> Done (uint v) | Panic \<Rightarrow> Panic | OutOfFuel \<Rightarrow> OutOfFuel)
      | Panic \<Rightarrow> Panic
      | OutOfFuel \<Rightarrow> OutOfFuel)"

definition badNode :: packedNode where
  "badNode = \<lparr>pn_tbl = None, pn_idx = - 1\<rparr>"

section \<open>The TrieNode interface\<close>

text \<open>A value of the interface type \<open>TrieNode\<close> is the nil interface, or holds a
  \<open>*simpleNode\<close> (a pointer that may itself be nil), or holds a \<open>packedNode\<close> struct.
  A method call on the nil interface value panics.\<close>

datatype TrieNode =
    NilTrieNode
  | SimplePtr "simpleNode option"
  | PackedVal packedNode

definition simple_IsPrefix :: "simpleNode option \<Rightarrow> bool" where
  "simple_IsPrefix p = (p \<noteq> None)"

definition simple_IsWord :: "heap \<Rightarrow> simpleNode option \<Rightarrow> bool go" where
  "simple_IsWord h p =
     (case p of None \<Rightarrow> Done False
      | Some sn \<Rightarrow> (case sn_s sn of None \<Rightarrow> Panic | Some a \<Rightarrow> Done (isWord (store h a))))"

text \<open>\<open>return nil\<close> in a function whose result type is the interface \<open>TrieNode\<close> returns
  the nil interface value.\<close>

definition simple_Follow :: "heap \<Rightarrow> simpleNode option \<Rightarrow> byte \<Rightarrow> TrieNode go" where
  "simple_Follow h p c =
     (case p of None \<Rightarrow> Done NilTrieNode
      | Some sn \<Rightarrow>
          if sn_cm sn c = 0 then Done NilTrieNode
          else (case sn_s sn of None \<Rightarrow> Panic
            | Some a \<Rightarrow>
                let i = sn_cm sn c - 1; ch = children (store h a) in
                if i < 0 \<or> int (length ch) \<le> i then Panic
                else (case ch ! nat i of
                    None \<Rightarrow> Done NilTrieNode
                  | Some q \<Rightarrow> Done (SimplePtr (Some \<lparr>sn_s = Some q, sn_cm = sn_cm sn\<rparr>)))))"

definition packed_IsPrefix :: "packedNode \<Rightarrow> bool" where
  "packed_IsPrefix p = (pn_idx p \<noteq> - 1)"

definition packed_IsWord :: "packedNode \<Rightarrow> bool go" where
  "packed_IsWord p =
     (if pn_idx p = - 1 then Done False
      else case pn_tbl p of None \<Rightarrow> Panic
        | Some t \<Rightarrow> (case indexAt t (pn_idx p) 0 of
            Done i \<Rightarrow> Done (i \<noteq> - 1) | Panic \<Rightarrow> Panic | OutOfFuel \<Rightarrow> OutOfFuel))"

definition packed_Follow :: "packedNode \<Rightarrow> byte \<Rightarrow> TrieNode go" where
  "packed_Follow p c =
     (if pn_idx p = - 1 then Done (PackedVal badNode)
      else case pn_tbl p of None \<Rightarrow> Panic
        | Some t \<Rightarrow>
            if tbl_cm t c = 0 then Done (PackedVal badNode)
            else (case indexAt t (pn_idx p) (tbl_cm t c) of
                Done i \<Rightarrow>
                  if i = - 1 then Done (PackedVal badNode)
                  else Done (PackedVal \<lparr>pn_tbl = Some t, pn_idx = i\<rparr>)
              | Panic \<Rightarrow> Panic
              | OutOfFuel \<Rightarrow> OutOfFuel))"

definition IsPrefix :: "heap \<Rightarrow> TrieNode \<Rightarrow> bool go" where
  "IsPrefix h n =
     (case n of NilTrieNode \<Rightarrow> Panic
      | SimplePtr p \<Rightarrow> Done (simple_IsPrefix p)
      | PackedVal p \<Rightarrow> Done (packed_IsPrefix p))"

definition IsWord :: "heap \<Rightarrow> TrieNode \<Rightarrow> bool go" where
  "IsWord h n =
     (case n of NilTrieNode \<Rightarrow> Panic
      | SimplePtr p \<Rightarrow> simple_IsWord h p
      | PackedVal p \<Rightarrow> packed_IsWord p)"

definition Follow :: "heap \<Rightarrow> TrieNode \<Rightarrow> byte \<Rightarrow> TrieNode go" where
  "Follow h n c =
     (case n of NilTrieNode \<Rightarrow> Panic
      | SimplePtr p \<Rightarrow> simple_Follow h p c
      | PackedVal p \<Rightarrow> packed_Follow p c)"

section \<open>The navigator\<close>

record Navigator =
  nodes :: "TrieNode list"
  nav_prefix :: "byte list"

definition NewNavigator :: "TrieNode \<Rightarrow> Navigator" where
  "NewNavigator tn = \<lparr>nodes = [] @ [tn], nav_prefix = []\<rparr>"

definition lastNode :: "Navigator \<Rightarrow> TrieNode go" where
  "lastNode n = (if nodes n = [] then Panic else Done (last (nodes n)))"

definition nav_IsWord :: "heap \<Rightarrow> Navigator \<Rightarrow> bool go" where
  "nav_IsWord h n = (case lastNode n of Done t \<Rightarrow> IsWord h t | Panic \<Rightarrow> Panic | OutOfFuel \<Rightarrow> OutOfFuel)"

definition nav_IsPrefix :: "heap \<Rightarrow> Navigator \<Rightarrow> bool go" where
  "nav_IsPrefix h n = (case lastNode n of Done t \<Rightarrow> IsPrefix h t | Panic \<Rightarrow> Panic | OutOfFuel \<Rightarrow> OutOfFuel)"

definition nav_Word :: "Navigator \<Rightarrow> byte list" where
  "nav_Word n = nav_prefix n"

definition Push :: "heap \<Rightarrow> byte \<Rightarrow> Navigator \<Rightarrow> Navigator go" where
  "Push h c n =
     (let n1 = n\<lparr>nav_prefix := nav_prefix n @ [c]\<rparr> in
      case lastNode n1 of
        Done t \<Rightarrow> (case Follow h t c of
            Done t' \<Rightarrow> Done (n1\<lparr>nodes := nodes n1 @ [t']\<rparr>)
          | Panic \<Rightarrow> Panic | OutOfFuel \<Rightarrow> OutOfFuel)
      | Panic \<Rightarrow> Panic | OutOfFuel \<Rightarrow> OutOfFuel)"

definition Pop :: "Navigator \<Rightarrow> Navigator go" where
  "Pop n =
     (if nav_prefix n = [] then Panic
      else let n1 = n\<lparr>nav_prefix := butlast (nav_prefix n)\<rparr> in
        if nodes n1 = [] then Panic
        else Done (n1\<lparr>nodes := butlast (nodes n1)\<rparr>))"

definition Reset :: "Navigator \<Rightarrow> Navigator go" where
  "Reset n =
     (let n1 = n\<lparr>nav_prefix := take 0 (nav_prefix n)\<rparr> in
      if length (nodes n1) < 1 then Panic
      else Done (n1\<lparr>nodes := take 1 (nodes n1)\<rparr>))"

text \<open>The loop \<open>for c := byte('A'); c <= byte('Z'); c++\<close> of \<open>allValidWords\<close>, over the
  bytes still to visit; \<open>body\<close> is the recursive call and \<open>ws\<close> the words sent on the
  channel so far.\<close>

fun forAZ :: "heap \<Rightarrow> (Navigator \<Rightarrow> (Navigator \<times> byte list list) go) \<Rightarrow> byte list
    \<Rightarrow> Navigator \<Rightarrow> byte list list \<Rightarrow> (Navigator \<times> byte list list) go" where
  "forAZ h body [] n ws = Done (n, ws)"
| "forAZ h body (c # cs) n ws =
     (case Push h c n of
        Done n1 \<Rightarrow> (case body n1 of
            Done (n2, ws2) \<Rightarrow> (case Pop n2 of
                Done n3 \<Rightarrow> forAZ h body cs n3 (ws @ ws2)
              | Panic \<Rightarrow> Panic | OutOfFuel \<Rightarrow> OutOfFuel)
          | Panic \<Rightarrow> Panic | OutOfFuel \<Rightarrow> OutOfFuel)
      | Panic \<Rightarrow> Panic | OutOfFuel \<Rightarrow> OutOfFuel)"

definition bytesAZ :: "byte list" where
  "bytesAZ = map of_nat [65 ..< 91]"

text \<open>\<open>allValidWords\<close> with a budget on the recursion depth; the result carries the
  navigator afterwards and the words sent on the channel, in order.\<close>

primrec allValidWords :: "heap \<Rightarrow> nat \<Rightarrow> Navigator \<Rightarrow> (Navigator \<times> byte list list) go" where
  "allValidWords h 0 = (\<lambda>n. OutOfFuel)"
| "allValidWords h (Suc k) = (\<lambda>n.
     case nav_IsPrefix h n of
       Done isp \<Rightarrow>
         if \<not> isp then Done (n, [])
         else (case nav_IsWord h n of
             Done isw \<Rightarrow>
               forAZ h (allValidWords h k) bytesAZ n (if isw then [nav_Word n] else [])
           | Panic \<Rightarrow> Panic | OutOfFuel \<Rightarrow> OutOfFuel)
     | Panic \<Rightarrow> Panic | OutOfFuel \<Rightarrow> OutOfFuel)"

text \<open>\<open>All\<close> and \<open>Count\<close> read the channel of \<open>ValidWordsChan\<close> until it is closed, so
  they see every word \<open>allValidWords\<close> sends, in order.\<close>

definition nav_All :: "heap \<Rightarrow> nat \<Rightarrow> Navigator \<Rightarrow> byte list list \<Rightarrow> (Navigator \<times> byte list list) go" where
  "nav_All h k n result =
     (case allValidWords h k n of
        Done (n', ws) \<Rightarrow> Done (n', result @ ws)
      | Panic \<Rightarrow> Panic | OutOfFuel \<Rightarrow> OutOfFuel)"

definition nav_Count :: "heap \<Rightarrow> nat \<Rightarrow> Navigator \<Rightarrow> (Navigator \<times> int) go" where
  "nav_Count h k n =
     (case allValidWords h k n of
        Done (n', ws) \<Rightarrow> Done (n', int (length ws))
      | Panic \<Rightarrow> Panic | OutOfFuel \<Rightarrow> OutOfFuel)"





section \<open>The arena builder\<close>

text \<open>\<open>for _, c := range s\<close> over a Go string yields Unicode code points, not bytes: the
  runtime decodes UTF-8 and yields U+FFFD, advancing one byte, where the bytes are not a
  valid encoding. \<open>decoderune\<close> gives the code point at the head of the string and its
  width in bytes.\<close>

definition decoderune :: "nat list \<Rightarrow> nat \<times> nat" where
  "decoderune b =
     (let b0 = b ! 0 in
      if b0 < 128 then (b0, 1)
      else if 192 \<le> b0 \<and> b0 < 224 \<and> 1 < length b \<and> 128 \<le> b ! 1 \<and> b ! 1 \<le> 191
              \<and> 127 < (b0 mod 32) * 64 + b ! 1 mod 64
        then ((b0 mod 32) * 64 + b ! 1 mod 64, 2)
      else if 224 \<le> b0 \<and> b0 < 240 \<and> 2 < length b \<and> 128 \<le> b ! 1 \<and> b ! 1 \<le> 191
              \<and> 128 \<le> b ! 2 \<and> b ! 2 \<le> 191
              \<and> 2047 < (b0 mod 16) * 4096 + (b ! 1 mod 64) * 64 + b ! 2 mod 64
              \<and> \<not> (55296 \<le> (b0 mod 16) * 4096 + (b ! 1 mod 64) * 64 + b ! 2 mod 64
                    \<and> (b0 mod 16) * 4096 + (b ! 1 mod 64) * 64 + b ! 2 mod 64 \<le> 57343)
        then ((b0 mod 16) * 4096 + (b ! 1 mod 64) * 64 + b ! 2 mod 64, 3)
      else if 240 \<le> b0 \<and> b0 < 248 \<and> 3 < length b \<and> 128 \<le> b ! 1 \<and> b ! 1 \<le> 191
              \<and> 128 \<le> b ! 2 \<and> b ! 2 \<le> 191 \<and> 128 \<le> b ! 3 \<and> b ! 3 \<le> 191
              \<and> 65535 < (b0 mod 8) * 262144 + (b ! 1 mod 64) * 4096 + (b ! 2 mod 64) * 64 + b ! 3 mod 64
              \<and> (b0 mod 8) * 262144 + (b ! 1 mod 64) * 4096 + (b ! 2 mod 64) * 64 + b ! 3 mod 64 \<le> 1114111
        then ((b0 mod 8) * 262144 + (b ! 1 mod 64) * 4096 + (b ! 2 mod 64) * 64 + b ! 3 mod 64, 4)
      else (65533, 1))"

fun runes_nat :: "nat list \<Rightarrow> nat list" where
  "runes_nat [] = []"
| "runes_nat (b0 # bs) =
     fst (decoderune (b0 # bs)) # runes_nat (drop (snd (decoderune (b0 # bs)) - 1) bs)"

definition runes :: "byte list \<Rightarrow> nat list" where
  "runes s = runes_nat (map unat s)"

datatype error = BadWord "byte list"

text \<open>The first loop of \<open>AddWord\<close>: \<open>Done False\<close> is the early \<open>return fmt.Errorf(...)\<close>.
  \<open>b.cm[c]\<close> indexes the 256-entry array with the code point.\<close>

fun checkLetters :: "CharMap \<Rightarrow> nat list \<Rightarrow> bool go" where
  "checkLetters cm [] = Done True"
| "checkLetters cm (c # cs) =
     (if 256 \<le> c then Panic
      else if cm (of_nat c) = 0 then Done False
      else checkLetters cm cs)"

text \<open>The second loop of \<open>AddWord\<close> and the final \<open>st.isWord = true\<close>.\<close>

fun addLoop :: "CharMap \<Rightarrow> heap \<Rightarrow> addr \<Rightarrow> nat list \<Rightarrow> heap go" where
  "addLoop cm h st [] =
     Done (h\<lparr>store := (store h)(st := (store h st)\<lparr>isWord := True\<rparr>)\<rparr>)"
| "addLoop cm h st (c # cs) =
     (if 256 \<le> c then Panic
      else let i = cm (of_nat c) - 1 in
        if i < 0 \<or> int (length (children (store h st))) \<le> i then Panic
        else (case children (store h st) ! nat i of
            None \<Rightarrow> (case newSimple (cm_max cm) h of
                Done (q, h1) \<Rightarrow>
                  addLoop cm
                    (h1\<lparr>store := (store h1)
                       (st := (store h1 st)\<lparr>children := (children (store h1 st))[nat i := Some q]\<rparr>)\<rparr>)
                    q cs
              | Panic \<Rightarrow> Panic | OutOfFuel \<Rightarrow> OutOfFuel)
          | Some q \<Rightarrow> addLoop cm h q cs))"

definition AddWord :: "simpleNode \<Rightarrow> heap \<Rightarrow> byte list \<Rightarrow> (error option \<times> heap) go" where
  "AddWord b h s =
     (case checkLetters (sn_cm b) (runes s) of
        Done ok \<Rightarrow>
          if \<not> ok then Done (Some (BadWord s), h)
          else (case sn_s b of None \<Rightarrow> Panic
            | Some st \<Rightarrow> (case addLoop (sn_cm b) h st (runes s) of
                Done h' \<Rightarrow> Done (None, h') | Panic \<Rightarrow> Panic | OutOfFuel \<Rightarrow> OutOfFuel))
      | Panic \<Rightarrow> Panic | OutOfFuel \<Rightarrow> OutOfFuel)"

text \<open>\<open>NewSimpleBuilder\<close>, \<open>NewSuffixCompressedBuilder\<close> and \<open>NewPackedBuilder\<close> all
  allocate the same root; the three builders share \<open>AddWord\<close> and differ in \<open>Root\<close>.\<close>

definition NewSimpleBuilder :: "CharMap \<Rightarrow> heap \<Rightarrow> (simpleNode \<times> heap) go" where
  "NewSimpleBuilder cm h =
     (case newSimple (cm_max cm) h of
        Done (r, h1) \<Rightarrow> Done (\<lparr>sn_s = Some r, sn_cm = cm\<rparr>, h1)
      | Panic \<Rightarrow> Panic | OutOfFuel \<Rightarrow> OutOfFuel)"

definition emptyHeap :: heap where
  "emptyHeap = \<lparr>store = (\<lambda>_. \<lparr>isWord = False, children = []\<rparr>), htop = 0\<rparr>"

definition simple_Root :: "simpleNode \<Rightarrow> TrieNode" where
  "simple_Root b = SimplePtr (Some b)"

text \<open>A sequence of \<open>AddWord\<close> calls on one builder; as in \<open>ReadWords\<close>, a word that
  fails is reported and skipped.\<close>

fun addWords :: "simpleNode \<Rightarrow> heap \<Rightarrow> byte list list \<Rightarrow> heap go" where
  "addWords b h [] = Done h"
| "addWords b h (w # ws) =
     (case AddWord b h w of
        Done (e, h1) \<Rightarrow> addWords b h1 ws
      | Panic \<Rightarrow> Panic | OutOfFuel \<Rightarrow> OutOfFuel)"

section \<open>Suffix compression\<close>

record compressTable =
  ct_hashes :: "addr \<Rightarrow> 32 word"
  ct_done :: "32 word \<Rightarrow> addr list option"
  ct_duplicates :: int
  ct_nodes :: int
  ct_collisions :: int

text \<open>The loop of \<open>hash\<close> over the child slots; \<open>rec\<close> is the recursive call, \<open>i\<close> the
  slot index and \<open>hs\<close> the memo table \<open>ct.hashes\<close>.\<close>

fun hashLoop :: "(addr \<Rightarrow> (addr \<Rightarrow> 32 word) \<Rightarrow> (32 word \<times> (addr \<Rightarrow> 32 word)) go)
    \<Rightarrow> addr option list \<Rightarrow> nat \<Rightarrow> 32 word \<Rightarrow> (addr \<Rightarrow> 32 word)
    \<Rightarrow> (32 word \<times> (addr \<Rightarrow> 32 word)) go" where
  "hashLoop rec [] i result hs = Done (result, hs)"
| "hashLoop rec (ch # chs) i result hs =
     (case ch of
        Some q \<Rightarrow> (case rec q hs of
            Done (hq, hs1) \<Rightarrow> hashLoop rec chs (i + 1) (result * 167 + of_nat (i + 1) * hq) hs1
          | Panic \<Rightarrow> Panic | OutOfFuel \<Rightarrow> OutOfFuel)
      | None \<Rightarrow> hashLoop rec chs (i + 1) (result * 167 + of_nat ((i + 1) * 99)) hs)"

primrec hash :: "heap \<Rightarrow> nat \<Rightarrow> addr \<Rightarrow> (addr \<Rightarrow> 32 word) \<Rightarrow> (32 word \<times> (addr \<Rightarrow> 32 word)) go" where
  "hash h 0 = (\<lambda>t hs. OutOfFuel)"
| "hash h (Suc k) = (\<lambda>t hs.
     if hs t = 0 then
       (case hashLoop (hash h k) (children (store h t)) 0 0 hs of
          Done (result, hs1) \<Rightarrow>
            let r1 = (if isWord (store h t) then result * 7 + 1 else result);
                r2 = (if r1 = 0 then 42 else r1);
                hs2 = hs1(t := r2)
            in Done (hs2 t, hs2)
        | Panic \<Rightarrow> Panic | OutOfFuel \<Rightarrow> OutOfFuel)
     else Done (hs t, hs))"

text \<open>The first loop of \<open>nodesEqual\<close>: the same slots are nil in both nodes.
  \<open>t.children[i]\<close> panics when \<open>t\<close> has fewer slots than \<open>s\<close>.\<close>

fun shapeLoop :: "addr option list \<Rightarrow> addr option list \<Rightarrow> bool go" where
  "shapeLoop [] ts = Done True"
| "shapeLoop (x # xs) [] = Panic"
| "shapeLoop (x # xs) (y # ys) =
     (if (x = None) \<noteq> (y = None) then Done False else shapeLoop xs ys)"

text \<open>The second loop of \<open>nodesEqual\<close>; \<open>rec\<close> is the recursive call.\<close>

fun eqLoop :: "(addr \<Rightarrow> addr \<Rightarrow> bool go) \<Rightarrow> addr option list \<Rightarrow> addr option list \<Rightarrow> bool go" where
  "eqLoop rec [] ts = Done True"
| "eqLoop rec (x # xs) [] = (case x of None \<Rightarrow> eqLoop rec xs [] | Some a \<Rightarrow> Panic)"
| "eqLoop rec (x # xs) (y # ys) =
     (case x of
        None \<Rightarrow> eqLoop rec xs ys
      | Some a \<Rightarrow> (case y of
            None \<Rightarrow> Panic
          | Some b \<Rightarrow> (case rec a b of
                Done e \<Rightarrow> if \<not> e then Done False else eqLoop rec xs ys
              | Panic \<Rightarrow> Panic | OutOfFuel \<Rightarrow> OutOfFuel)))"

primrec nodesEqual :: "heap \<Rightarrow> nat \<Rightarrow> addr \<Rightarrow> addr \<Rightarrow> bool go" where
  "nodesEqual h 0 = (\<lambda>s t. OutOfFuel)"
| "nodesEqual h (Suc k) = (\<lambda>s t.
     if s = t then Done True
     else if isWord (store h s) \<noteq> isWord (store h t) then Done False
     else (case shapeLoop (children (store h s)) (children (store h t)) of
         Done ok \<Rightarrow>
           if \<not> ok then Done False
           else eqLoop (nodesEqual h k) (children (store h s)) (children (store h t))
       | Panic \<Rightarrow> Panic | OutOfFuel \<Rightarrow> OutOfFuel))"

text \<open>The scan of the bucket \<open>ct.done[h]\<close> in \<open>compressTable.insertNode\<close>: the first node
  of the bucket equal to \<open>t\<close>, if there is one.\<close>

fun findEqual :: "heap \<Rightarrow> nat \<Rightarrow> addr list \<Rightarrow> addr \<Rightarrow> addr option go" where
  "findEqual h k [] t = Done None"
| "findEqual h k (s # ss) t =
     (case nodesEqual h k s t of
        Done e \<Rightarrow> if e then Done (Some s) else findEqual h k ss t
      | Panic \<Rightarrow> Panic | OutOfFuel \<Rightarrow> OutOfFuel)"

definition ct_insertNode :: "heap \<Rightarrow> nat \<Rightarrow> addr \<Rightarrow> compressTable \<Rightarrow> (addr \<times> compressTable) go" where
  "ct_insertNode h k t ct =
     (case hash h k t (ct_hashes ct) of
        Done (hv, hs) \<Rightarrow>
          let ct1 = ct\<lparr>ct_hashes := hs\<rparr>;
              fresh = (ct_done ct1 hv = None);
              ct2 = (if fresh then ct1\<lparr>ct_done := (ct_done ct1)(hv \<mapsto> [])\<rparr> else ct1);
              bucket = (case ct_done ct2 hv of None \<Rightarrow> [] | Some b \<Rightarrow> b)
          in (case findEqual h k bucket t of
              Done (Some s) \<Rightarrow> Done (s, ct2\<lparr>ct_duplicates := ct_duplicates ct2 + 1\<rparr>)
            | Done None \<Rightarrow>
                let ct3 = ct2\<lparr>ct_done := (ct_done ct2)(hv \<mapsto> bucket @ [t])\<rparr>;
                    ct4 = ct3\<lparr>ct_nodes := ct_nodes ct3 + 1\<rparr>;
                    ct5 = (if \<not> fresh then ct4\<lparr>ct_collisions := ct_collisions ct4 + 1\<rparr> else ct4)
                in Done (t, ct5)
            | Panic \<Rightarrow> Panic | OutOfFuel \<Rightarrow> OutOfFuel)
      | Panic \<Rightarrow> Panic | OutOfFuel \<Rightarrow> OutOfFuel)"

text \<open>The loop of \<open>compressNode\<close> over the slot indexes \<open>is\<close> still to visit:
  \<open>t.children[i] = ct.compressNode(t.children[i])\<close>. \<open>rec\<close> is the recursive call.\<close>

fun compressLoop :: "(addr option \<Rightarrow> heap \<Rightarrow> compressTable \<Rightarrow> (addr option \<times> heap \<times> compressTable) go)
    \<Rightarrow> addr \<Rightarrow> nat list \<Rightarrow> heap \<Rightarrow> compressTable \<Rightarrow> (heap \<times> compressTable) go" where
  "compressLoop rec t [] h ct = Done (h, ct)"
| "compressLoop rec t (i # is) h ct =
     (case rec (children (store h t) ! i) h ct of
        Done (c, h1, ct1) \<Rightarrow>
          compressLoop rec t is
            (h1\<lparr>store := (store h1)(t := (store h1 t)\<lparr>children := (children (store h1 t))[i := c]\<rparr>)\<rparr>)
            ct1
      | Panic \<Rightarrow> Panic | OutOfFuel \<Rightarrow> OutOfFuel)"

primrec compressNode :: "nat \<Rightarrow> addr option \<Rightarrow> heap \<Rightarrow> compressTable
    \<Rightarrow> (addr option \<times> heap \<times> compressTable) go" where
  "compressNode 0 = (\<lambda>t h ct. OutOfFuel)"
| "compressNode (Suc k) = (\<lambda>t h ct.
     case t of
       None \<Rightarrow> Done (None, h, ct)
     | Some a \<Rightarrow>
         (case compressLoop (compressNode k) a [0 ..< length (children (store h a))] h ct of
            Done (h1, ct1) \<Rightarrow> (case ct_insertNode h1 (Suc k) a ct1 of
                Done (r, ct2) \<Rightarrow> Done (Some r, h1, ct2)
              | Panic \<Rightarrow> Panic | OutOfFuel \<Rightarrow> OutOfFuel)
          | Panic \<Rightarrow> Panic | OutOfFuel \<Rightarrow> OutOfFuel))"

definition emptyCompressTable :: compressTable where
  "emptyCompressTable =
     \<lparr>ct_hashes = (\<lambda>_. 0), ct_done = (\<lambda>_. None), ct_duplicates = 0, ct_nodes = 0, ct_collisions = 0\<rparr>"

definition compress :: "nat \<Rightarrow> simpleNode \<Rightarrow> heap \<Rightarrow> (simpleNode \<times> heap) go" where
  "compress k t h =
     (case compressNode k (sn_s t) h emptyCompressTable of
        Done (s, h1, ct) \<Rightarrow> Done (\<lparr>sn_s = s, sn_cm = sn_cm t\<rparr>, h1)
      | Panic \<Rightarrow> Panic | OutOfFuel \<Rightarrow> OutOfFuel)"

text \<open>\<open>scBuilder.Root\<close>.\<close>

definition sc_Root :: "nat \<Rightarrow> simpleNode \<Rightarrow> heap \<Rightarrow> (TrieNode \<times> heap) go" where
  "sc_Root k b h =
     (case compress k b h of
        Done (s, h1) \<Rightarrow> Done (SimplePtr (Some s), h1)
      | Panic \<Rightarrow> Panic | OutOfFuel \<Rightarrow> OutOfFuel)"

section \<open>Packed construction\<close>

definition SetKey :: "packedTable \<Rightarrow> int \<Rightarrow> byte \<Rightarrow> packedTable go" where
  "SetKey p i k =
     (if i < 0 \<or> int (length (cells p)) \<le> i then Panic
      else Done (p\<lparr>cells := (cells p)[nat i := ((cells p ! nat i) AND NOT 255) OR ucast k]\<rparr>))"

definition SetValue :: "packedTable \<Rightarrow> int \<Rightarrow> 32 word \<Rightarrow> packedTable go" where
  "SetValue p i v =
     (if i < 0 \<or> int (length (cells p)) \<le> i then Panic
      else Done (p\<lparr>cells := (cells p)[nat i := ((cells p ! nat i) AND 255) OR push_bit 8 v]\<rparr>))"

text \<open>The loop of \<open>ensureIndex\<close>: \<open>space[:N]\<close> panics unless \<open>0 \<le> N \<le> 256\<close>, and with
  \<open>N = 0\<close> the loop appends nothing and never ends.\<close>

function ensureLoop :: "32 word list \<Rightarrow> int \<Rightarrow> int \<Rightarrow> 32 word list go" where
  "ensureLoop cs i N =
     (if int (length cs) < i + N then
        (if N < 0 \<or> 256 < N then Panic
         else if N = 0 then OutOfFuel
         else ensureLoop (cs @ replicate (nat N) 0) i N)
      else Done cs)"
  by pat_completeness auto
termination
  by (relation "measure (\<lambda>(cs, i, N). nat (i + N - int (length cs)))") auto

declare ensureLoop.simps [simp del]

definition ensureIndex :: "packedTable \<Rightarrow> int \<Rightarrow> int \<Rightarrow> (int \<times> packedTable) go" where
  "ensureIndex t i N =
     (case ensureLoop (cells t) i N of
        Done cs \<Rightarrow> Done (i, t\<lparr>cells := cs\<rparr>)
      | Panic \<Rightarrow> Panic | OutOfFuel \<Rightarrow> OutOfFuel)"

text \<open>The loop of \<open>nextGap\<close>, from its first index \<open>i + 1\<close> on.\<close>

function nextGapLoop :: "32 word list \<Rightarrow> int \<Rightarrow> int go" where
  "nextGapLoop cs i =
     (if i < int (length cs) then
        (if i < 0 then Panic
         else if cs ! nat i \<noteq> 0 then nextGapLoop cs (i + 1)
         else Done i)
      else Done i)"
  by pat_completeness auto
termination
  by (relation "measure (\<lambda>(cs, i). nat (int (length cs) - i))") auto

declare nextGapLoop.simps [simp del]

definition nextGap :: "packedTable \<Rightarrow> int \<Rightarrow> int go" where
  "nextGap t i = nextGapLoop (cells t) (i + 1)"

text \<open>The first loop of \<open>findIndex\<close>: the offset of the first live child slot, \<open>N + 1\<close>
  (the value \<open>dflt\<close>) when there is none.\<close>

fun firstLive :: "addr option list \<Rightarrow> int \<Rightarrow> int \<Rightarrow> int" where
  "firstLive [] i dflt = dflt"
| "firstLive (ch # chs) i dflt = (if ch \<noteq> None then i + 1 else firstLive chs (i + 1) dflt)"

text \<open>The inner loop of \<open>findIndex\<close> over the slots \<open>j\<close> of a candidate base \<open>i\<close>.
  \<open>Done True\<close>: the candidate is taken (the loop ran to its end with \<open>ok\<close>, or reached
  the end of the table); \<open>Done False\<close>: \<open>ok = false\<close>.\<close>

function checkSlots :: "packedTable \<Rightarrow> simple \<Rightarrow> int \<Rightarrow> int \<Rightarrow> bool go" where
  "checkSlots t s i j =
     (if j < int (length (children s)) + 1 then
        (if i + j \<ge> int (length (cells t)) then Done True
         else (case Key t (i + j) of
             Done k \<Rightarrow>
               if k = (of_int (j + 1) :: byte) then Done False
               else if k = 0 then checkSlots t s i (j + 1)
               else if j = 0 \<and> isWord s then Done False
               else if j > 0 \<and> children s ! nat (j - 1) \<noteq> None then Done False
               else checkSlots t s i (j + 1)
           | Panic \<Rightarrow> Panic | OutOfFuel \<Rightarrow> OutOfFuel))
      else Done True)"
  by pat_completeness auto
termination
  by (relation "measure (\<lambda>(t, s, i, j). nat (int (length (children s)) + 1 - j))") auto

declare checkSlots.simps [simp del]

lemma nextGapLoop_ge: "nextGapLoop cs i = Done g \<Longrightarrow> i \<le> g"
proof (induction cs i rule: nextGapLoop.induct)
  case (1 cs i)
  then show ?case
    by (subst (asm) (2) nextGapLoop.simps) (auto split: if_splits)
qed

text \<open>The outer loop of \<open>findIndex\<close> from candidate base \<open>i\<close> on; a negative candidate
  is skipped (\<open>continue\<close>), and the loop's post statement moves to the next gap.\<close>

function scanLoop :: "packedTable \<Rightarrow> simple \<Rightarrow> int \<Rightarrow> int \<Rightarrow> (int \<times> packedTable) go" where
  "scanLoop t s offset i =
     (if i < int (length (cells t)) then
        (case (if i < 0 then Done False else checkSlots t s i 0) of
           Done ok \<Rightarrow>
             if ok then ensureIndex t i (int (length (children s)) + 1)
             else (case nextGap t (i + offset) of
                 Done g \<Rightarrow> scanLoop t s offset (g - offset)
               | Panic \<Rightarrow> Panic | OutOfFuel \<Rightarrow> OutOfFuel)
         | Panic \<Rightarrow> Panic | OutOfFuel \<Rightarrow> OutOfFuel)
      else ensureIndex t (int (length (cells t))) (int (length (children s)) + 1))"
  by pat_completeness auto
termination
proof (relation "measure (\<lambda>(t, s, offset, i). nat (int (length (cells t)) - i))")
  show "wf (measure (\<lambda>(t, s, offset, i). nat (int (length (cells t)) - i)))"
    by simp
next
  fix t :: packedTable and s :: simple and offset i :: int and ok :: bool and g :: int
  assume "i < int (length (cells t))" and "nextGap t (i + offset) = Done g"
  then have "i + offset + 1 \<le> g"
    using nextGapLoop_ge [of "cells t" "i + offset + 1" g] by (simp add: nextGap_def)
  with \<open>i < int (length (cells t))\<close>
  show "((t, s, offset, g - offset), (t, s, offset, i))
      \<in> measure (\<lambda>(t, s, offset, i). nat (int (length (cells t)) - i))"
    by simp
qed

declare scanLoop.simps [simp del]

definition findIndex :: "packedTable \<Rightarrow> simple \<Rightarrow> (int \<times> packedTable) go" where
  "findIndex t s =
     (let N = int (length (children s));
          offset = (if isWord s then 0 else firstLive (children s) 0 (N + 1))
      in case nextGap t (- 1) of
        Done g \<Rightarrow> scanLoop t s offset (g - offset)
      | Panic \<Rightarrow> Panic | OutOfFuel \<Rightarrow> OutOfFuel)"

text \<open>The first loop of \<open>insertNode\<close>: the keys of the live child slots.\<close>

fun setChildKeys :: "addr option list \<Rightarrow> int \<Rightarrow> int \<Rightarrow> packedTable \<Rightarrow> packedTable go" where
  "setChildKeys [] idx i t = Done t"
| "setChildKeys (ch # chs) idx i t =
     (if ch \<noteq> None then
        (case SetKey t (idx + i + 1) (of_int (i + 2)) of
           Done t1 \<Rightarrow> setChildKeys chs idx (i + 1) t1
         | Panic \<Rightarrow> Panic | OutOfFuel \<Rightarrow> OutOfFuel)
      else setChildKeys chs idx (i + 1) t)"

text \<open>The second loop of \<open>insertNode\<close>: each live child is placed and its base stored as
  the slot's value. \<open>rec\<close> is the recursive call, \<open>ix\<close> the map \<open>indexes\<close>.\<close>

fun placeChildren :: "(addr \<Rightarrow> packedTable \<Rightarrow> (addr \<Rightarrow> int) \<Rightarrow> (int \<times> packedTable \<times> (addr \<Rightarrow> int)) go)
    \<Rightarrow> addr option list \<Rightarrow> int \<Rightarrow> int \<Rightarrow> packedTable \<Rightarrow> (addr \<Rightarrow> int)
    \<Rightarrow> (packedTable \<times> (addr \<Rightarrow> int)) go" where
  "placeChildren rec [] idx i t ix = Done (t, ix)"
| "placeChildren rec (ch # chs) idx i t ix =
     (case ch of
        None \<Rightarrow> placeChildren rec chs idx (i + 1) t ix
      | Some c \<Rightarrow> (case rec c t ix of
            Done (ci, t1, ix1) \<Rightarrow> (case SetValue t1 (idx + i + 1) (of_int ci) of
                Done t2 \<Rightarrow> placeChildren rec chs idx (i + 1) t2 ix1
              | Panic \<Rightarrow> Panic | OutOfFuel \<Rightarrow> OutOfFuel)
          | Panic \<Rightarrow> Panic | OutOfFuel \<Rightarrow> OutOfFuel))"

primrec insertNode :: "heap \<Rightarrow> nat \<Rightarrow> addr \<Rightarrow> packedTable \<Rightarrow> (addr \<Rightarrow> int)
    \<Rightarrow> (int \<times> packedTable \<times> (addr \<Rightarrow> int)) go" where
  "insertNode h 0 = (\<lambda>s t ix. OutOfFuel)"
| "insertNode h (Suc k) = (\<lambda>s t ix.
     if ix s \<noteq> 0 then Done (ix s - 1, t, ix)
     else (case findIndex t (store h s) of
         Done (idx, t0) \<Rightarrow>
           (case (if isWord (store h s) then SetKey t0 idx 1 else Done t0) of
              Done t1 \<Rightarrow> (case setChildKeys (children (store h s)) idx 0 t1 of
                  Done t2 \<Rightarrow>
                    (case placeChildren (insertNode h k) (children (store h s)) idx 0 t2
                            (ix(s := idx + 1)) of
                       Done (t3, ix3) \<Rightarrow> Done (idx, t3, ix3)
                     | Panic \<Rightarrow> Panic | OutOfFuel \<Rightarrow> OutOfFuel)
                | Panic \<Rightarrow> Panic | OutOfFuel \<Rightarrow> OutOfFuel)
            | Panic \<Rightarrow> Panic | OutOfFuel \<Rightarrow> OutOfFuel)
       | Panic \<Rightarrow> Panic | OutOfFuel \<Rightarrow> OutOfFuel))"

definition fromSimple :: "heap \<Rightarrow> nat \<Rightarrow> simpleNode \<Rightarrow> packedNode go" where
  "fromSimple h k sn =
     (case sn_s sn of
        None \<Rightarrow> Panic
      | Some r \<Rightarrow> (case insertNode h k r \<lparr>cells = [], tbl_cm = sn_cm sn\<rparr> (\<lambda>_. 0) of
            Done (idx, t, ix) \<Rightarrow> Done \<lparr>pn_tbl = Some t, pn_idx = idx\<rparr>
          | Panic \<Rightarrow> Panic | OutOfFuel \<Rightarrow> OutOfFuel))"

text \<open>\<open>packedBuilder.Root\<close>: compress, then pack (the statistics it prints are left out).\<close>

definition packed_Root :: "nat \<Rightarrow> simpleNode \<Rightarrow> heap \<Rightarrow> (TrieNode \<times> heap) go" where
  "packed_Root k b h =
     (case compress k b h of
        Done (s, h1) \<Rightarrow> (case fromSimple h1 k s of
            Done p \<Rightarrow> Done (PackedVal p, h1)
          | Panic \<Rightarrow> Panic | OutOfFuel \<Rightarrow> OutOfFuel)
      | Panic \<Rightarrow> Panic | OutOfFuel \<Rightarrow> OutOfFuel)"

text \<open>\<open>ReadWords(b, in)\<close> for each of the three builders, on a fresh heap, without the
  I/O: \<open>ls\<close> are the lines read, already trimmed. The builder is made, every line that
  is not empty is added and \<open>Root\<close> is taken. \<open>k\<close> is the recursion budget of \<open>Root\<close>.\<close>

definition ReadWords_simple :: "CharMap \<Rightarrow> byte list list \<Rightarrow> (TrieNode \<times> heap) go" where
  "ReadWords_simple cm ls =
     (case NewSimpleBuilder cm emptyHeap of
        Done (b, h) \<Rightarrow> (case addWords b h (filter (\<lambda>l. 0 < length l) ls) of
            Done h1 \<Rightarrow> Done (simple_Root b, h1)
          | Panic \<Rightarrow> Panic | OutOfFuel \<Rightarrow> OutOfFuel)
      | Panic \<Rightarrow> Panic | OutOfFuel \<Rightarrow> OutOfFuel)"

definition ReadWords_sc :: "nat \<Rightarrow> CharMap \<Rightarrow> byte list list \<Rightarrow> (TrieNode \<times> heap) go" where
  "ReadWords_sc k cm ls =
     (case NewSimpleBuilder cm emptyHeap of
        Done (b, h) \<Rightarrow> (case addWords b h (filter (\<lambda>l. 0 < length l) ls) of
            Done h1 \<Rightarrow> sc_Root k b h1
          | Panic \<Rightarrow> Panic | OutOfFuel \<Rightarrow> OutOfFuel)
      | Panic \<Rightarrow> Panic | OutOfFuel \<Rightarrow> OutOfFuel)"

definition ReadWords_packed :: "nat \<Rightarrow> CharMap \<Rightarrow> byte list list \<Rightarrow> (TrieNode \<times> heap) go" where
  "ReadWords_packed k cm ls =
     (case NewSimpleBuilder cm emptyHeap of
        Done (b, h) \<Rightarrow> (case addWords b h (filter (\<lambda>l. 0 < length l) ls) of
            Done h1 \<Rightarrow> packed_Root k b h1
          | Panic \<Rightarrow> Panic | OutOfFuel \<Rightarrow> OutOfFuel)
      | Panic \<Rightarrow> Panic | OutOfFuel \<Rightarrow> OutOfFuel)"

section \<open>Facts about the alphabet map\<close>

lemma fold_max_ge_init:
  "(r::int) \<le> fold (\<lambda>i r. if f i > r then f i else r) is r"
proof (induction "is" arbitrary: r)
  case Nil then show ?case by simp
next
  case (Cons i "is")
  have "(if r < f i then f i else r) \<le> fold (\<lambda>i r. if f i > r then f i else r) is (if r < f i then f i else r)"
    by (rule Cons.IH)
  then show ?case by (simp split: if_splits)
qed

lemma fold_max_ge_elem:
  "i \<in> set is \<Longrightarrow> f i \<le> fold (\<lambda>i r. if f i > r then f i else (r::int)) is r"
proof (induction "is" arbitrary: r)
  case Nil then show ?case by simp
next
  case (Cons j "is")
  show ?case
  proof (cases "i = j")
    case True
    have "(if r < f j then f j else r) \<le> fold (\<lambda>i r. if f i > r then f i else r) is (if r < f j then f j else r)"
      by (rule fold_max_ge_init)
    with True show ?thesis by (simp split: if_splits)
  next
    case False
    with Cons show ?thesis by simp
  qed
qed

lemma fold_max_le:
  "r \<le> m \<Longrightarrow> (\<And>i. i \<in> set is \<Longrightarrow> f i \<le> m) \<Longrightarrow> fold (\<lambda>i r. if f i > r then f i else (r::int)) is r \<le> m"
  by (induction "is" arbitrary: r) auto

lemma cm_max_nonneg: "0 \<le> cm_max cm"
  unfolding cm_max_def by (rule fold_max_ge_init)

lemma cm_max_ge: "cm c \<le> cm_max cm"
proof -
  have "unat c \<in> set [0 ..< 256]"
    using unsigned_less [of c] by simp
  then have "cm (of_nat (unat c)) \<le> cm_max cm"
    unfolding cm_max_def by (rule fold_max_ge_elem [where f = "\<lambda>i. cm (of_nat i)"])
  then show ?thesis by simp
qed

lemma cm_max_le: "0 \<le> m \<Longrightarrow> (\<And>c. cm c \<le> m) \<Longrightarrow> cm_max cm \<le> m"
  unfolding cm_max_def by (rule fold_max_le) auto

lemma alpha_hyphen: "NewAlphaCharMap 45 = 27"
  by (simp add: NewAlphaCharMap_def upt_rec)

lemma alpha_apostrophe: "NewAlphaCharMap 39 = 28"
  by (simp add: NewAlphaCharMap_def upt_rec)

lemma alpha_le: "NewAlphaCharMap c \<le> 28"
  by (simp add: NewAlphaCharMap_def upt_rec)

lemma alpha_nonneg: "0 \<le> NewAlphaCharMap c"
  by (simp add: NewAlphaCharMap_def upt_rec)

lemma cm_max_alpha: "cm_max NewAlphaCharMap = 28"
  using cm_max_ge [of NewAlphaCharMap 39] cm_max_le [of 28 NewAlphaCharMap]
  by (simp add: alpha_apostrophe alpha_le)


section \<open>The navigator: backtracking and enumeration\<close>

lemma Push_Pop: "Push h c n = Done n1 \<Longrightarrow> Pop n1 = Done n"
  by (auto simp: Push_def Pop_def lastNode_def Let_def split: go.splits if_splits)

lemma forAZ_restores:
  assumes body: "\<And>m m' w. body m = Done (m', w) \<Longrightarrow> m' = m"
  shows "forAZ h body cs n ws = Done (n', ws') \<Longrightarrow> n' = n"
proof (induction cs arbitrary: n ws)
  case Nil
  then show ?case by simp
next
  case (Cons c cs)
  from Cons.prems obtain n1 n2 ws2 n3 where
    p: "Push h c n = Done n1" and b: "body n1 = Done (n2, ws2)" and q: "Pop n2 = Done n3"
    and r: "forAZ h body cs n3 (ws @ ws2) = Done (n', ws')"
    by (auto split: go.splits prod.splits)
  from b body have "n2 = n1" by blast
  with p q have "n3 = n" using Push_Pop by fastforce
  with Cons.IH r show ?case by blast
qed

lemma allValidWords_restores:
  "allValidWords h k n = Done (n', ws) \<Longrightarrow> n' = n"
proof (induction k arbitrary: n n' ws)
  case 0
  then show ?case by simp
next
  case (Suc k)
  show ?case
  proof (cases "nav_IsPrefix h n = Done True")
    case True
    with Suc.prems obtain isw where
      "forAZ h (allValidWords h k) bytesAZ n (if isw then [nav_Word n] else []) = Done (n', ws)"
      by (auto split: go.splits)
    then show ?thesis
      using forAZ_restores [of "allValidWords h k"] Suc.IH by blast
  next
    case False
    with Suc.prems show ?thesis
      by (auto split: go.splits if_splits)
  qed
qed

lemma packed_sentinel_absorbing:
  "Follow h (PackedVal badNode) c = Done (PackedVal badNode)
   \<and> IsWord h (PackedVal badNode) = Done False
   \<and> IsPrefix h (PackedVal badNode) = Done False"
  by (simp add: Follow_def IsWord_def IsPrefix_def packed_Follow_def packed_IsWord_def
      packed_IsPrefix_def badNode_def)

text \<open>The words \<open>allValidWords\<close> sends extend the navigator's prefix by bytes from
  \<open>A\<close> to \<open>Z\<close> only.\<close>

lemma Push_prefix: "Push h c n = Done n1 \<Longrightarrow> nav_prefix n1 = nav_prefix n @ [c]"
  by (auto simp: Push_def Let_def split: go.splits)

lemma forAZ_only_AZ:
  assumes body: "\<And>m m' w. body m = Done (m', w) \<Longrightarrow>
      m' = m \<and> (\<forall>x \<in> set w. \<exists>u. x = nav_prefix m @ u \<and> set u \<subseteq> set bytesAZ)"
  shows "forAZ h body cs n ws = Done (n', ws') \<Longrightarrow> set cs \<subseteq> set bytesAZ \<Longrightarrow>
     (\<forall>x \<in> set ws. \<exists>u. x = nav_prefix n @ u \<and> set u \<subseteq> set bytesAZ) \<Longrightarrow>
     (\<forall>x \<in> set ws'. \<exists>u. x = nav_prefix n @ u \<and> set u \<subseteq> set bytesAZ)"
proof (induction cs arbitrary: n ws)
  case Nil
  then show ?case by simp
next
  case (Cons c cs)
  from Cons.prems(1) obtain n1 n2 ws2 n3 where
    p: "Push h c n = Done n1" and b: "body n1 = Done (n2, ws2)" and q: "Pop n2 = Done n3"
    and r: "forAZ h body cs n3 (ws @ ws2) = Done (n', ws')"
    by (auto split: go.splits prod.splits)
  from body [OF b] have n2: "n2 = n1"
    and w2: "\<forall>x \<in> set ws2. \<exists>u. x = nav_prefix n1 @ u \<and> set u \<subseteq> set bytesAZ" by simp_all
  from p q n2 have n3: "n3 = n" using Push_Pop by fastforce
  have "\<forall>x \<in> set (ws @ ws2). \<exists>u. x = nav_prefix n @ u \<and> set u \<subseteq> set bytesAZ"
  proof
    fix x assume "x \<in> set (ws @ ws2)"
    then consider "x \<in> set ws" | "x \<in> set ws2" by auto
    then show "\<exists>u. x = nav_prefix n @ u \<and> set u \<subseteq> set bytesAZ"
    proof cases
      case 1
      with Cons.prems(3) show ?thesis by blast
    next
      case 2
      with w2 obtain u where "x = nav_prefix n1 @ u" and "set u \<subseteq> set bytesAZ" by blast
      with Push_prefix [OF p] Cons.prems(2) have "x = nav_prefix n @ (c # u)"
        and "set (c # u) \<subseteq> set bytesAZ" by simp_all
      then show ?thesis by blast
    qed
  qed
  with Cons.IH [OF r [unfolded n3]] Cons.prems(2) show ?case by simp
qed

lemma allValidWords_only_AZ:
  "allValidWords h k n = Done (n', ws) \<Longrightarrow>
     n' = n \<and> (\<forall>x \<in> set ws. \<exists>u. x = nav_prefix n @ u \<and> set u \<subseteq> set bytesAZ)"
proof (induction k arbitrary: n n' ws)
  case 0
  then show ?case by simp
next
  case (Suc k)
  have n: "n' = n" using Suc.prems by (rule allValidWords_restores)
  show ?case
  proof (cases "nav_IsPrefix h n = Done True")
    case True
    with Suc.prems obtain isw where
      run: "forAZ h (allValidWords h k) bytesAZ n (if isw then [nav_Word n] else []) = Done (n', ws)"
      by (auto split: go.splits)
    have "\<forall>x \<in> set (if isw then [nav_Word n] else []).
        \<exists>u. x = nav_prefix n @ u \<and> set u \<subseteq> set bytesAZ"
      by (simp add: nav_Word_def)
    from forAZ_only_AZ [of "allValidWords h k", OF Suc.IH run _ this] n show ?thesis
      by simp
  next
    case False
    with Suc.prems show ?thesis
      by (auto split: go.splits if_splits)
  qed
qed

text \<open>C6. When \<open>allValidWords\<close> returns, the navigator it leaves is the navigator it was
  given: the node stack and the prefix are the same lists as before, however many words
  were sent. Hence a second enumeration from there sends the same words, and \<open>All\<close> and
  \<open>Count\<close> give the same result before and after.\<close>

theorem enumeration_restores_navigator:
  assumes "allValidWords h k n = Done (n', ws)"
  shows "n' = n \<and> nodes n' = nodes n \<and> nav_prefix n' = nav_prefix n
    \<and> allValidWords h k n' = Done (n', ws)
    \<and> nav_All h k n [] = Done (n, ws) \<and> nav_All h k n' [] = Done (n, ws)
    \<and> nav_Count h k n = Done (n, int (length ws))
    \<and> nav_Count h k n' = Done (n, int (length ws))"
proof -
  from assms have "n' = n" by (rule allValidWords_restores)
  with assms show ?thesis by (simp add: nav_All_def nav_Count_def)
qed






section \<open>The arena builder: re-adding a word\<close>

text \<open>Every allocated node has \<open>N\<close> child slots, and every child pointer is allocated.\<close>

definition arena_ok :: "nat \<Rightarrow> heap \<Rightarrow> bool" where
  "arena_ok N h \<longleftrightarrow>
     (\<forall>p < htop h. length (children (store h p)) = N
        \<and> (\<forall>q. Some q \<in> set (children (store h p)) \<longrightarrow> q < htop h))"

text \<open>The walk of \<open>AddWord\<close>'s second loop finds every node in place and ends on a word.\<close>

fun onPath :: "CharMap \<Rightarrow> heap \<Rightarrow> addr \<Rightarrow> nat list \<Rightarrow> bool" where
  "onPath cm h st [] = isWord (store h st)"
| "onPath cm h st (c # cs) =
     (c < 256 \<and> 0 \<le> cm (of_nat c) - 1
      \<and> cm (of_nat c) - 1 < int (length (children (store h st)))
      \<and> (case children (store h st) ! nat (cm (of_nat c) - 1) of
            None \<Rightarrow> False
          | Some q \<Rightarrow> onPath cm h q cs))"

lemma onPath_addLoop: "onPath cm h st cs \<Longrightarrow> addLoop cm h st cs = Done h"
proof (induction cs arbitrary: st)
  case Nil
  then have "(store h st)\<lparr>isWord := True\<rparr> = store h st" by simp
  then show ?case by simp
next
  case (Cons c cs)
  then show ?case by (auto simp: Let_def split: option.splits)
qed

definition keeps :: "heap \<Rightarrow> heap \<Rightarrow> bool" where
  "keeps h h' \<longleftrightarrow> htop h \<le> htop h'
     \<and> (\<forall>p < htop h. length (children (store h' p)) = length (children (store h p))
          \<and> (isWord (store h p) \<longrightarrow> isWord (store h' p))
          \<and> (\<forall>i q. i < length (children (store h p)) \<longrightarrow> children (store h p) ! i = Some q
                \<longrightarrow> children (store h' p) ! i = Some q))"

lemma keeps_refl: "keeps h h"
  by (simp add: keeps_def)

lemma keeps_trans: "keeps h1 h2 \<Longrightarrow> keeps h2 h3 \<Longrightarrow> keeps h1 h3"
  by (fastforce simp: keeps_def)

lemma newSimple_Done:
  "newSimple n h = Done (q, h1) \<Longrightarrow>
     q = htop h \<and> htop h1 = Suc (htop h) \<and> 0 \<le> n
     \<and> store h1 = (store h)(htop h := \<lparr>isWord = False, children = replicate (nat n) None\<rparr>)"
  by (auto simp: newSimple_def split: if_splits)

text \<open>One step of the loop that allocates: the heap after \<open>st.children[i] = newSimple(...)\<close>.\<close>

lemma alloc_step:
  assumes ok: "arena_ok N h" and st: "st < htop h" and i: "i < N"
    and none: "children (store h st) ! i = None"
    and new: "newSimple (int N) h = Done (q, h1)"
    and h2: "h2 = h1\<lparr>store := (store h1)
        (st := (store h1 st)\<lparr>children := (children (store h1 st))[i := Some q]\<rparr>)\<rparr>"
  shows "arena_ok N h2" and "q < htop h2" and "keeps h h2" and "children (store h2 st) ! i = Some q"
    and "st < htop h2"
proof -
  from newSimple_Done [OF new] have q: "q = htop h" and t1: "htop h1 = Suc (htop h)"
    and s1: "store h1 = (store h)(htop h := \<lparr>isWord = False, children = replicate N None\<rparr>)"
    by simp_all
  from st q have ne: "st \<noteq> q" by simp
  have t2: "htop h2 = Suc (htop h)" using h2 t1 by simp
  have s2: "store h2 = (store h)(q := \<lparr>isWord = False, children = replicate N None\<rparr>,
      st := (store h st)\<lparr>children := (children (store h st))[i := Some q]\<rparr>)"
    using h2 s1 q ne by simp
  from ok st have len: "length (children (store h st)) = N" by (simp add: arena_ok_def)
  show "q < htop h2" using q t2 by simp
  show "st < htop h2" using st t2 by simp
  show "children (store h2 st) ! i = Some q" using s2 ne len i by simp
  show "arena_ok N h2"
    unfolding arena_ok_def
  proof (intro allI impI)
    fix p assume p: "p < htop h2"
    show "length (children (store h2 p)) = N
        \<and> (\<forall>r. Some r \<in> set (children (store h2 p)) \<longrightarrow> r < htop h2)"
    proof (cases "p = st")
      case True
      have "\<And>r. Some r \<in> set ((children (store h st))[i := Some q]) \<Longrightarrow> r < htop h2"
      proof -
        fix r assume "Some r \<in> set ((children (store h st))[i := Some q])"
        then have "Some r \<in> insert (Some q) (set (children (store h st)))"
          using set_update_subset_insert by fastforce
        then show "r < htop h2"
          using ok st q t2 by (auto simp: arena_ok_def less_Suc_eq)
      qed
      with True s2 len show ?thesis by simp
    next
      case False
      show ?thesis
      proof (cases "p = q")
        case True
        with s2 ne show ?thesis by simp
      next
        case False
        with \<open>p \<noteq> st\<close> p t2 q have "p < htop h" and "store h2 p = store h p"
          using s2 by auto
        with ok t2 show ?thesis by (auto simp: arena_ok_def less_Suc_eq)
      qed
    qed
  qed
  show "keeps h h2"
    unfolding keeps_def
  proof (intro conjI allI impI)
    show "htop h \<le> htop h2" using t2 by simp
  next
    fix p assume "p < htop h"
    then show "length (children (store h2 p)) = length (children (store h p))"
      using s2 q by simp
  next
    fix p assume "p < htop h" and "isWord (store h p)"
    then show "isWord (store h2 p)"
      using s2 q by auto
  next
    fix p j r assume p: "p < htop h" and j: "j < length (children (store h p))"
      and r: "children (store h p) ! j = Some r"
    show "children (store h2 p) ! j = Some r"
    proof (cases "p = st")
      case True
      with r none have "j \<noteq> i" by auto
      with True s2 r show ?thesis by simp
    next
      case False
      with p q s2 r show ?thesis by simp
    qed
  qed
qed

lemma addLoop_inv:
  "addLoop cm h st cs = Done h' \<Longrightarrow> arena_ok (nat (cm_max cm)) h \<Longrightarrow> st < htop h \<Longrightarrow>
     arena_ok (nat (cm_max cm)) h' \<and> keeps h h' \<and> onPath cm h' st cs"
proof (induction cs arbitrary: h st)
  case Nil
  then have h': "h' = h\<lparr>store := (store h)(st := (store h st)\<lparr>isWord := True\<rparr>)\<rparr>"
    by simp
  have "arena_ok (nat (cm_max cm)) h'"
    using Nil.prems(2) unfolding arena_ok_def h' by auto
  moreover have "keeps h h'"
    unfolding keeps_def h' by auto
  moreover have "onPath cm h' st []"
    unfolding h' by simp
  ultimately show ?case by blast
next
  case (Cons c cs)
  let ?N = "nat (cm_max cm)"
  let ?i = "cm (of_nat c) - 1"
  from Cons.prems(1) have c: "c < 256" and i0: "0 \<le> ?i"
    and i1: "?i < int (length (children (store h st)))"
    by (auto simp: Let_def split: if_splits)
  from Cons.prems(2,3) have len: "length (children (store h st)) = ?N"
    by (simp add: arena_ok_def)
  show ?case
  proof (cases "children (store h st) ! nat ?i")
    case (Some q)
    with Cons.prems(1) c i0 i1 have run: "addLoop cm h q cs = Done h'"
      by (simp add: Let_def)
    from Some i0 i1 have "Some q \<in> set (children (store h st))"
      by (metis nat_less_iff nth_mem)
    with Cons.prems(2,3) have q: "q < htop h" by (auto simp: arena_ok_def)
    from Cons.IH [OF run Cons.prems(2) q]
    have ok': "arena_ok ?N h'" and k: "keeps h h'" and path: "onPath cm h' q cs" by blast+
    from k Cons.prems(3) Some i0 i1
    have "children (store h' st) ! nat ?i = Some q"
      and "length (children (store h' st)) = length (children (store h st))"
      by (auto simp: keeps_def)
    with path c i0 i1 have "onPath cm h' st (c # cs)" by simp
    with ok' k show ?thesis by blast
  next
    case None
    with Cons.prems(1) c i0 i1 obtain q h1 where
      new: "newSimple (cm_max cm) h = Done (q, h1)"
      and run: "addLoop cm (h1\<lparr>store := (store h1)
          (st := (store h1 st)\<lparr>children := (children (store h1 st))[nat ?i := Some q]\<rparr>)\<rparr>) q cs
        = Done h'"
      by (auto simp: Let_def split: go.splits)
    define h2 where "h2 = h1\<lparr>store := (store h1)
          (st := (store h1 st)\<lparr>children := (children (store h1 st))[nat ?i := Some q]\<rparr>)\<rparr>"
    have new': "newSimple (int ?N) h = Done (q, h1)"
      using new cm_max_nonneg [of cm] by simp
    from i1 len i0 have iN: "nat ?i < ?N" by linarith
    note step = alloc_step [OF Cons.prems(2) Cons.prems(3) iN None new' h2_def]
    from run have run2: "addLoop cm h2 q cs = Done h'" by (simp add: h2_def)
    from Cons.IH [OF run2 step(1) step(2)]
    have ok': "arena_ok ?N h'" and k2: "keeps h2 h'" and path: "onPath cm h' q cs" by blast+
    from step(3) k2 have k: "keeps h h'" by (rule keeps_trans)
    from k2 step(4) step(5) step(1) iN
    have "children (store h' st) ! nat ?i = Some q"
      by (auto simp: keeps_def arena_ok_def)
    moreover from k Cons.prems(3)
    have "length (children (store h' st)) = length (children (store h st))"
      by (auto simp: keeps_def)
    ultimately have "onPath cm h' st (c # cs)" using path c i0 i1 by simp
    with ok' k show ?thesis by blast
  qed
qed

lemma NewSimpleBuilder_ok:
  assumes "NewSimpleBuilder cm emptyHeap = Done (b, h0)"
  shows "arena_ok (nat (cm_max cm)) h0" and "sn_s b = Some 0" and "sn_cm b = cm" and "0 < htop h0"
  using assms cm_max_nonneg [of cm]
  by (auto simp: NewSimpleBuilder_def newSimple_def emptyHeap_def arena_ok_def split: if_splits)

lemma AddWord_ok:
  assumes "AddWord b h w = Done (e, h')" and "arena_ok (nat (cm_max (sn_cm b))) h"
    and "sn_s b = Some r" and "r < htop h"
  shows "arena_ok (nat (cm_max (sn_cm b))) h' \<and> r < htop h'"
proof (cases e)
  case (Some err)
  with assms show ?thesis
    by (auto simp: AddWord_def split: go.splits if_splits)
next
  case None
  with assms have "addLoop (sn_cm b) h r (runes w) = Done h'"
    by (auto simp: AddWord_def split: go.splits if_splits)
  from addLoop_inv [OF this assms(2) assms(4)] assms(4) show ?thesis
    by (auto simp: keeps_def)
qed

lemma addWords_ok:
  "addWords b h ws = Done h' \<Longrightarrow> arena_ok (nat (cm_max (sn_cm b))) h \<Longrightarrow>
     sn_s b = Some r \<Longrightarrow> r < htop h \<Longrightarrow>
     arena_ok (nat (cm_max (sn_cm b))) h' \<and> r < htop h'"
proof (induction ws arbitrary: h)
  case Nil
  then show ?case by simp
next
  case (Cons w ws)
  from Cons.prems(1) obtain e h1 where a: "AddWord b h w = Done (e, h1)"
    and rest: "addWords b h1 ws = Done h'"
    by (auto split: go.splits)
  from AddWord_ok [OF a Cons.prems(2) Cons.prems(3) Cons.prems(4)]
  have "arena_ok (nat (cm_max (sn_cm b))) h1" and "r < htop h1" by blast+
  with Cons.IH [OF rest] Cons.prems(3) show ?case by blast
qed

text \<open>What is on a path stays on it: later calls only add nodes and word marks.\<close>

lemma onPath_keeps:
  "onPath cm h st cs \<Longrightarrow> keeps h h' \<Longrightarrow> arena_ok N h \<Longrightarrow> st < htop h \<Longrightarrow>
     onPath cm h' st cs"
proof (induction cs arbitrary: st)
  case Nil
  then show ?case by (simp add: keeps_def)
next
  case (Cons c cs)
  let ?i = "cm (of_nat c) - 1"
  from Cons.prems(1) obtain q where c: "c < 256" and i0: "0 \<le> ?i"
    and i1: "?i < int (length (children (store h st)))"
    and q: "children (store h st) ! nat ?i = Some q" and path: "onPath cm h q cs"
    by (auto split: option.splits)
  from i0 i1 have il: "nat ?i < length (children (store h st))" by linarith
  from nth_mem [OF il] q have "Some q \<in> set (children (store h st))" by simp
  with Cons.prems(3,4) have qt: "q < htop h" by (auto simp: arena_ok_def)
  from path Cons.prems(2,3) qt have path': "onPath cm h' q cs" by (rule Cons.IH)
  from Cons.prems(2,4) have len: "length (children (store h' st)) = length (children (store h st))"
    by (simp add: keeps_def)
  from Cons.prems(2,4) il q have q': "children (store h' st) ! nat ?i = Some q"
    by (simp add: keeps_def)
  from c i0 i1 len q' path' show ?case by simp
qed

lemma AddWord_keeps:
  assumes "AddWord b h w = Done (e, h')" and "arena_ok (nat (cm_max (sn_cm b))) h"
    and "sn_s b = Some r" and "r < htop h"
  shows "keeps h h'"
proof (cases e)
  case (Some err)
  with assms(1) have "h' = h"
    by (auto simp: AddWord_def split: go.splits if_splits option.splits)
  then show ?thesis by (simp add: keeps_refl)
next
  case None
  with assms have "addLoop (sn_cm b) h r (runes w) = Done h'"
    by (auto simp: AddWord_def split: go.splits if_splits)
  from addLoop_inv [OF this assms(2) assms(4)] show ?thesis by blast
qed

lemma addWords_keeps:
  "addWords b h ws = Done h' \<Longrightarrow> arena_ok (nat (cm_max (sn_cm b))) h \<Longrightarrow>
     sn_s b = Some r \<Longrightarrow> r < htop h \<Longrightarrow> keeps h h'"
proof (induction ws arbitrary: h)
  case Nil
  then show ?case by (simp add: keeps_refl)
next
  case (Cons w ws)
  from Cons.prems(1) obtain e h1 where a: "AddWord b h w = Done (e, h1)"
    and rest: "addWords b h1 ws = Done h'"
    by (auto split: go.splits)
  from AddWord_ok [OF a Cons.prems(2) Cons.prems(3) Cons.prems(4)]
  have ok1: "arena_ok (nat (cm_max (sn_cm b))) h1" and r1: "r < htop h1" by blast+
  from AddWord_keeps [OF a Cons.prems(2) Cons.prems(3) Cons.prems(4)] have "keeps h h1" .
  moreover from rest ok1 Cons.prems(3) r1 have "keeps h1 h'" by (rule Cons.IH)
  ultimately show ?case by (rule keeps_trans)
qed

text \<open>C8. In a trie built by \<open>AddWord\<close> calls on a fresh builder, adding a word that an
  earlier \<open>AddWord\<close> call added, whatever was added since, succeeds again and leaves the
  heap of nodes exactly as it was.\<close>

theorem add_word_idempotent:
  assumes "NewSimpleBuilder cm emptyHeap = Done (b, h0)"
    and "addWords b h0 ws1 = Done h1"
    and "AddWord b h1 w = Done (None, h2)"
    and "addWords b h2 ws2 = Done h"
  shows "AddWord b h w = Done (None, h)"
proof -
  note b = NewSimpleBuilder_ok [OF assms(1)]
  let ?N = "nat (cm_max (sn_cm b))"
  from addWords_ok [OF assms(2)] b
  have ok1: "arena_ok ?N h1" and r1: "0 < htop h1" by simp_all
  from assms(3) b(2) have chk: "checkLetters (sn_cm b) (runes w) = Done True"
    and run: "addLoop (sn_cm b) h1 0 (runes w) = Done h2"
    by (auto simp: AddWord_def split: go.splits if_splits)
  from addLoop_inv [OF run ok1 r1]
  have ok2: "arena_ok ?N h2" and k12: "keeps h1 h2" and path: "onPath (sn_cm b) h2 0 (runes w)"
    by blast+
  from k12 r1 have r2: "0 < htop h2" by (simp add: keeps_def)
  from assms(4) ok2 b(2) r2 have "keeps h2 h" by (rule addWords_keeps)
  with path have "onPath (sn_cm b) h 0 (runes w)" using ok2 r2 by (rule onPath_keeps)
  then have "addLoop (sn_cm b) h 0 (runes w) = Done h" by (rule onPath_addLoop)
  with chk b(2) show ?thesis by (simp add: AddWord_def)
qed

lemma runes_ascii: "\<forall>b \<in> set s. b < 128 \<Longrightarrow> runes_nat s = s"
  by (induction s) (simp_all add: decoderune_def)

lemma checkLetters_latin1:
  "\<forall>c \<in> set cs. c < 256 \<Longrightarrow>
     checkLetters cm cs = Done (\<forall>c \<in> set cs. cm (of_nat c) \<noteq> 0)"
  by (induction cs) auto

text \<open>On a string of ASCII bytes \<open>AddWord\<close> returns the error exactly when the alphabet
  map rejects one of the bytes, and whenever it returns the error the heap is the one it
  was given.\<close>

lemma AddWord_error_ascii:
  assumes "\<forall>c \<in> set s. c < 128"
  shows "(\<exists>e. AddWord b h s = Done (Some e, h)) \<longleftrightarrow> (\<exists>c \<in> set s. sn_cm b c = 0)"
proof -
  from assms have r: "runes s = map unat s"
    by (simp add: runes_def runes_ascii word_less_nat_alt)
  have "\<forall>c \<in> set (map unat s). c < 256"
    using unsigned_less [where 'b = 8] by (auto simp: )
  from checkLetters_latin1 [OF this, of "sn_cm b"]
  have "checkLetters (sn_cm b) (runes s) = Done (\<forall>c \<in> set s. sn_cm b c \<noteq> 0)"
    by (simp add: r)
  then show ?thesis
    by (auto simp: AddWord_def split: go.splits option.splits)
qed

lemma AddWord_error_keeps_heap: "AddWord b h s = Done (Some e, h') \<Longrightarrow> h' = h"
  by (auto simp: AddWord_def split: go.splits option.splits if_splits)

section \<open>Packed construction: keys are written once\<close>

definition cellKey :: "32 word \<Rightarrow> byte" where
  "cellKey c = ucast (c AND 255)"

lemma mask8: "(255 :: 32 word) = mask 8"
  by (simp add: mask_eq_exp_minus_1)

lemma cellKey_zero: "cellKey 0 = 0"
  by (simp add: cellKey_def)

lemma cellKey_SetKey: "cellKey ((c AND NOT 255) OR ucast k) = k"
  unfolding cellKey_def mask8
  by (rule bit_word_eqI) (auto simp: bit_simps)

lemma cellKey_SetKey': "cellKey ((c AND - 256) OR ucast k) = k"
  using cellKey_SetKey [of c k] by simp

lemma cellKey_SetValue: "cellKey ((c AND 255) OR push_bit 8 v) = cellKey c"
  unfolding cellKey_def mask8
  by (rule bit_word_eqI) (auto simp: bit_simps)

text \<open>The key of the cell at index \<open>i\<close>, as \<open>Key\<close> reads it.\<close>

definition keyAt :: "packedTable \<Rightarrow> nat \<Rightarrow> byte" where
  "keyAt t i = cellKey (cells t ! i)"

lemma Key_Done:
  "Key t i = Done k \<longleftrightarrow> 0 \<le> i \<and> i < int (length (cells t)) \<and> k = keyAt t (nat i)"
  by (auto simp: Key_def keyAt_def cellKey_def)

text \<open>Every cell of \<open>t\<close> whose key is set has the same key in \<open>t'\<close>.\<close>

definition keys_kept :: "packedTable \<Rightarrow> packedTable \<Rightarrow> bool" where
  "keys_kept t t' \<longleftrightarrow> length (cells t) \<le> length (cells t')
     \<and> (\<forall>i < length (cells t). keyAt t i \<noteq> 0 \<longrightarrow> keyAt t' i = keyAt t i)"

lemma keys_kept_refl: "keys_kept t t"
  by (simp add: keys_kept_def)

lemma keys_kept_trans: "keys_kept t1 t2 \<Longrightarrow> keys_kept t2 t3 \<Longrightarrow> keys_kept t1 t3"
  unfolding keys_kept_def by (metis le_trans less_le_trans)

lemma SetKey_Done:
  assumes "SetKey t i k = Done t'"
  shows "0 \<le> i" and "i < int (length (cells t))" and "length (cells t') = length (cells t)"
    and "keyAt t' (nat i) = k" and "\<And>j. j \<noteq> nat i \<Longrightarrow> keyAt t' j = keyAt t j"
    and "tbl_cm t' = tbl_cm t"
  using assms by (auto simp: SetKey_def keyAt_def cellKey_SetKey' split: if_splits)

lemma SetKey_keys_kept:
  assumes "SetKey t i k = Done t'" and "keyAt t (nat i) = 0"
  shows "keys_kept t t'"
  unfolding keys_kept_def
proof (intro conjI allI impI)
  show "length (cells t) \<le> length (cells t')"
    using SetKey_Done(3) [OF assms(1)] by simp
next
  fix j assume "j < length (cells t)" and "keyAt t j \<noteq> 0"
  with assms(2) have "j \<noteq> nat i" by auto
  then show "keyAt t' j = keyAt t j"
    by (rule SetKey_Done(5) [OF assms(1)])
qed

lemma SetValue_Done:
  assumes "SetValue t i v = Done t'"
  shows "length (cells t') = length (cells t)" and "\<And>j. keyAt t' j = keyAt t j"
    and "tbl_cm t' = tbl_cm t"
proof -
  from assms have i: "0 \<le> i" "i < int (length (cells t))"
    and t': "t' = t\<lparr>cells := (cells t)[nat i := ((cells t ! nat i) AND 255) OR push_bit 8 v]\<rparr>"
    by (auto simp: SetValue_def split: if_splits)
  show "length (cells t') = length (cells t)" and "tbl_cm t' = tbl_cm t"
    by (simp_all add: t')
  fix j
  show "keyAt t' j = keyAt t j"
  proof (cases "j = nat i")
    case True
    with i show ?thesis by (simp add: t' keyAt_def cellKey_SetValue)
  next
    case False
    then show ?thesis by (simp add: t' keyAt_def)
  qed
qed

lemma SetValue_keys_kept: "SetValue t i v = Done t' \<Longrightarrow> keys_kept t t'"
  unfolding keys_kept_def using SetValue_Done [of t i v t'] by simp

text \<open>\<open>ensureIndex\<close> appends empty cells only.\<close>

lemma ensureLoop_Done:
  "ensureLoop cs i N = Done cs' \<Longrightarrow> (\<exists>m. cs' = cs @ replicate m 0) \<and> i + N \<le> int (length cs')"
proof (induction cs i N rule: ensureLoop.induct)
  case (1 cs i N)
  show ?case
  proof (cases "int (length cs) < i + N")
    case True
    with "1.prems" have ok: "\<not> (N < 0 \<or> 256 < N)" "N \<noteq> 0"
      and run: "ensureLoop (cs @ replicate (nat N) 0) i N = Done cs'"
      by (subst (asm) ensureLoop.simps; simp split: if_splits)+
    from "1.IH" [OF True ok run] obtain m where
      "cs' = (cs @ replicate (nat N) 0) @ replicate m 0" and le: "i + N \<le> int (length cs')"
      by blast
    then have "cs' = cs @ replicate (nat N + m) 0"
      by (simp add: replicate_add)
    with le show ?thesis by blast
  next
    case False
    with "1.prems" have "cs' = cs"
      by (subst (asm) ensureLoop.simps) simp
    with False show ?thesis by simp
  qed
qed

definition grown :: "packedTable \<Rightarrow> packedTable \<Rightarrow> bool" where
  "grown t t' \<longleftrightarrow> (\<exists>m. cells t' = cells t @ replicate m 0) \<and> tbl_cm t' = tbl_cm t"

lemma ensureIndex_Done:
  assumes "ensureIndex t i N = Done (r, t')"
  shows "r = i" and "grown t t'" and "i + N \<le> int (length (cells t'))"
  using assms ensureLoop_Done [of "cells t" i N]
  by (auto simp: ensureIndex_def grown_def split: go.splits)

lemma grown_keyAt:
  assumes "grown t t'"
  shows "i < length (cells t) \<Longrightarrow> keyAt t' i = keyAt t i"
    and "length (cells t) \<le> i \<Longrightarrow> i < length (cells t') \<Longrightarrow> keyAt t' i = 0"
    and "length (cells t) \<le> length (cells t')"
  using assms by (auto simp: grown_def keyAt_def nth_append cellKey_zero)

lemma grown_keys_kept: "grown t t' \<Longrightarrow> keys_kept t t'"
  unfolding keys_kept_def using grown_keyAt [of t t'] by simp

text \<open>Slot \<open>j\<close> of a node is live when the node writes a key there: slot 0 for a word,
  slot \<open>i + 1\<close> for a child on symbol \<open>i + 1\<close>.\<close>

definition live :: "simple \<Rightarrow> int \<Rightarrow> bool" where
  "live s j \<longleftrightarrow> (j = 0 \<and> isWord s) \<or> (0 < j \<and> children s ! nat (j - 1) \<noteq> None)"

text \<open>What \<open>findIndex\<close> has checked of the base it returns, on the cells that existed.\<close>

definition accepted :: "packedTable \<Rightarrow> simple \<Rightarrow> int \<Rightarrow> bool" where
  "accepted t s i \<longleftrightarrow> 0 \<le> i
     \<and> (\<forall>j. 0 \<le> j \<and> j \<le> int (length (children s)) \<and> i + j < int (length (cells t))
          \<longrightarrow> uint (keyAt t (nat (i + j))) \<noteq> j + 1
            \<and> (live s j \<longrightarrow> keyAt t (nat (i + j)) = 0))"

lemma checkSlots_step:
  assumes "checkSlots t s i j = Done True" and "0 \<le> i" and "0 \<le> j"
    and "j \<le> int (length (children s))" and "i + j < int (length (cells t))"
  shows "keyAt t (nat (i + j)) \<noteq> of_int (j + 1)"
    and "live s j \<longrightarrow> keyAt t (nat (i + j)) = 0"
    and "checkSlots t s i (j + 1) = Done True"
proof -
  from assms(2,3,5) have k: "Key t (i + j) = Done (keyAt t (nat (i + j)))"
    by (simp add: Key_Done)
  from assms(1) have *: "(if keyAt t (nat (i + j)) = of_int (j + 1) then Done False
      else if keyAt t (nat (i + j)) = 0 then checkSlots t s i (j + 1)
      else if j = 0 \<and> isWord s then Done False
      else if j > 0 \<and> children s ! nat (j - 1) \<noteq> None then Done False
      else checkSlots t s i (j + 1)) = Done True"
    using assms(4,5) k by (subst (asm) checkSlots.simps) simp
  from * show "keyAt t (nat (i + j)) \<noteq> of_int (j + 1)"
    by (auto split: if_splits)
  from * show "live s j \<longrightarrow> keyAt t (nat (i + j)) = 0"
    by (auto simp: live_def split: if_splits)
  from * show "checkSlots t s i (j + 1) = Done True"
    by (auto split: if_splits)
qed

lemma checkSlots_upto:
  "checkSlots t s i 0 = Done True \<Longrightarrow> 0 \<le> i \<Longrightarrow> int n \<le> int (length (children s)) \<Longrightarrow>
     i + int n \<le> int (length (cells t)) \<Longrightarrow> checkSlots t s i (int n) = Done True"
proof (induction n)
  case 0
  then show ?case by simp
next
  case (Suc n)
  from Suc have "checkSlots t s i (int n) = Done True" by simp
  from checkSlots_step(3) [OF this] Suc.prems show ?case
    by (simp add: add.commute)
qed

lemma checkSlots_accepted:
  assumes "checkSlots t s i 0 = Done True" and "0 \<le> i"
  shows "accepted t s i"
  unfolding accepted_def
proof (intro conjI allI impI)
  show "0 \<le> i" by fact
next
  fix j assume j: "0 \<le> j \<and> j \<le> int (length (children s)) \<and> i + j < int (length (cells t))"
  then have "checkSlots t s i (int (nat j)) = Done True"
    using checkSlots_upto [OF assms, of "nat j"] by simp
  with j have run: "checkSlots t s i j = Done True" by simp
  from checkSlots_step(1) [OF run assms(2)] j
  have "keyAt t (nat (i + j)) \<noteq> of_int (j + 1)" by simp
  then show "uint (keyAt t (nat (i + j))) \<noteq> j + 1"
    by (metis word_of_int_uint)
next
  fix j assume j: "0 \<le> j \<and> j \<le> int (length (children s)) \<and> i + j < int (length (cells t))"
    and l: "live s j"
  then have "checkSlots t s i (int (nat j)) = Done True"
    using checkSlots_upto [OF assms, of "nat j"] by simp
  with j have run: "checkSlots t s i j = Done True" by simp
  from checkSlots_step(2) [OF run assms(2)] j l
  show "keyAt t (nat (i + j)) = 0" by simp
qed

lemma scanLoop_Done:
  "scanLoop t s offset i = Done (r, t') \<Longrightarrow>
     accepted t s r \<and> grown t t' \<and> r + int (length (children s)) + 1 \<le> int (length (cells t'))"
proof (induction t s offset i rule: scanLoop.induct)
  case (1 t s offset i)
  show ?case
  proof (cases "i < int (length (cells t))")
    case inside: True
    show ?thesis
    proof (cases "\<not> i < 0 \<and> checkSlots t s i 0 = Done True")
      case True
      with "1.prems" inside
      have e: "ensureIndex t i (int (length (children s)) + 1) = Done (r, t')"
        by (subst (asm) scanLoop.simps) simp
      from ensureIndex_Done [OF e] True checkSlots_accepted [of t s i]
      show ?thesis by (simp add: add.assoc)
    next
      case False
      with "1.prems" inside obtain g where
        chk: "(if i < 0 then Done False else checkSlots t s i 0) = Done False"
        and gap: "nextGap t (i + offset) = Done g"
        and run: "scanLoop t s offset (g - offset) = Done (r, t')"
        by (subst (asm) scanLoop.simps) (auto split: go.splits if_splits)
      from "1.IH" [OF inside chk _ gap run] show ?thesis by simp
    qed
  next
    case False
    with "1.prems"
    have e: "ensureIndex t (int (length (cells t))) (int (length (children s)) + 1) = Done (r, t')"
      by (subst (asm) scanLoop.simps) simp
    from ensureIndex_Done [OF e] have "r = int (length (cells t))" and "grown t t'"
      and "r + int (length (children s)) + 1 \<le> int (length (cells t'))"
      by (simp_all add: add.assoc)
    moreover from \<open>r = int (length (cells t))\<close> have "accepted t s r"
      by (simp add: accepted_def)
    ultimately show ?thesis by blast
  qed
qed

lemma findIndex_Done:
  assumes "findIndex t s = Done (i, t')"
  shows "accepted t s i" and "grown t t'"
    and "i + int (length (children s)) + 1 \<le> int (length (cells t'))"
  using assms scanLoop_Done [of t s _ _ i t']
  by (auto simp: findIndex_def Let_def split: go.splits)


text \<open>The base \<open>i\<close> can take the node \<open>s\<close> in table \<open>t\<close>: its \<open>N + 1\<close> cells exist, no cell
  at offset \<open>j\<close> carries key \<open>j + 1\<close>, and the cell of every live slot is empty.\<close>

definition placeable :: "packedTable \<Rightarrow> simple \<Rightarrow> int \<Rightarrow> bool" where
  "placeable t s i \<longleftrightarrow> 0 \<le> i \<and> i + int (length (children s)) < int (length (cells t))
     \<and> (\<forall>j. 0 \<le> j \<and> j \<le> int (length (children s))
          \<longrightarrow> uint (keyAt t (nat (i + j))) \<noteq> j + 1
            \<and> (live s j \<longrightarrow> keyAt t (nat (i + j)) = 0))"

lemma findIndex_placeable:
  assumes "findIndex t s = Done (i, t')"
  shows "placeable t' s i"
  unfolding placeable_def
proof (intro conjI allI impI)
  note f = findIndex_Done [OF assms]
  from f(1) show "0 \<le> i" by (simp add: accepted_def)
  from f(3) show "i + int (length (children s)) < int (length (cells t'))" by simp
  from f(1) have i0: "0 \<le> i" by (simp add: accepted_def)
  fix j assume j: "0 \<le> j \<and> j \<le> int (length (children s))"
  have old: "keyAt t' (nat (i + j)) = keyAt t (nat (i + j))" if "i + j < int (length (cells t))"
  proof -
    from that i0 j have "nat (i + j) < length (cells t)" by linarith
    then show ?thesis by (rule grown_keyAt(1) [OF f(2)])
  qed
  have new: "keyAt t' (nat (i + j)) = 0" if "\<not> i + j < int (length (cells t))"
  proof -
    from that i0 j f(3) have "length (cells t) \<le> nat (i + j)"
      and "nat (i + j) < length (cells t')" by linarith+
    then show ?thesis by (rule grown_keyAt(2) [OF f(2)])
  qed
  show "uint (keyAt t' (nat (i + j))) \<noteq> j + 1"
  proof (cases "i + j < int (length (cells t))")
    case True
    with f(1) j have "uint (keyAt t (nat (i + j))) \<noteq> j + 1" by (simp add: accepted_def)
    with old [OF True] show ?thesis by simp
  next
    case False
    from new [OF False] j show ?thesis by simp
  qed
  show "keyAt t' (nat (i + j)) = 0" if l: "live s j"
  proof (cases "i + j < int (length (cells t))")
    case True
    with f(1) j l have "keyAt t (nat (i + j)) = 0" by (simp add: accepted_def)
    with old [OF True] show ?thesis by simp
  next
    case False
    then show ?thesis by (rule new)
  qed
qed

lemma setChildKeys_keys_kept:
  "setChildKeys chs idx i0 t = Done t' \<Longrightarrow> 0 \<le> idx \<Longrightarrow> 0 \<le> i0 \<Longrightarrow>
     (\<forall>j < length chs. chs ! j \<noteq> None \<longrightarrow> keyAt t (nat (idx + i0 + int j + 1)) = 0) \<Longrightarrow>
     keys_kept t t'"
proof (induction chs arbitrary: i0 t)
  case Nil
  then show ?case by (simp add: keys_kept_refl)
next
  case (Cons ch chs)
  show ?case
  proof (cases "ch = None")
    case True
    with Cons.prems(1) have run: "setChildKeys chs idx (i0 + 1) t = Done t'" by simp
    have "\<forall>j < length chs. chs ! j \<noteq> None \<longrightarrow> keyAt t (nat (idx + (i0 + 1) + int j + 1)) = 0"
    proof (intro allI impI)
      fix j assume "j < length chs" and "chs ! j \<noteq> None"
      with Cons.prems(4) have "keyAt t (nat (idx + i0 + int (Suc j) + 1)) = 0" by auto
      then show "keyAt t (nat (idx + (i0 + 1) + int j + 1)) = 0" by (simp add: add.commute add.left_commute)
    qed
    from Cons.IH [OF run Cons.prems(2) _ this] Cons.prems(3) show ?thesis by simp
  next
    case False
    with Cons.prems(1) obtain t1 where
      sk: "SetKey t (idx + i0 + 1) (of_int (i0 + 2)) = Done t1"
      and run: "setChildKeys chs idx (i0 + 1) t1 = Done t'"
      by (auto split: go.splits)
    from Cons.prems(4) False have "keyAt t (nat (idx + i0 + 1)) = 0" by auto
    with sk have k1: "keys_kept t t1" by (rule SetKey_keys_kept)
    have "\<forall>j < length chs. chs ! j \<noteq> None \<longrightarrow> keyAt t1 (nat (idx + (i0 + 1) + int j + 1)) = 0"
    proof (intro allI impI)
      fix j assume "j < length chs" and "chs ! j \<noteq> None"
      with Cons.prems(4) have "keyAt t (nat (idx + i0 + int (Suc j) + 1)) = 0" by auto
      then have "keyAt t (nat (idx + (i0 + 1) + int j + 1)) = 0" by (simp add: add.commute add.left_commute)
      moreover have "nat (idx + (i0 + 1) + int j + 1) \<noteq> nat (idx + i0 + 1)"
        using Cons.prems(2,3) by simp
      ultimately show "keyAt t1 (nat (idx + (i0 + 1) + int j + 1)) = 0"
        using SetKey_Done(5) [OF sk] by simp
    qed
    from Cons.IH [OF run Cons.prems(2) _ this] Cons.prems(3) have "keys_kept t1 t'" by simp
    with k1 show ?thesis by (rule keys_kept_trans)
  qed
qed

lemma placeChildren_keys_kept:
  assumes rec: "\<And>c t ix ci t1 ix1. rec c t ix = Done (ci, t1, ix1) \<Longrightarrow> keys_kept t t1"
  shows "placeChildren rec chs idx i t ix = Done (t', ix') \<Longrightarrow> keys_kept t t'"
proof (induction chs arbitrary: i t ix)
  case Nil
  then show ?case by (simp add: keys_kept_refl)
next
  case (Cons ch chs)
  show ?case
  proof (cases ch)
    case None
    with Cons show ?thesis by simp
  next
    case (Some c)
    with Cons.prems obtain ci t1 ix1 t2 where
      r: "rec c t ix = Done (ci, t1, ix1)"
      and sv: "SetValue t1 (idx + i + 1) (of_int ci) = Done t2"
      and run: "placeChildren rec chs idx (i + 1) t2 ix1 = Done (t', ix')"
      by (auto split: go.splits)
    from rec [OF r] SetValue_keys_kept [OF sv] Cons.IH [OF run]
    show ?thesis by (blast intro: keys_kept_trans)
  qed
qed

lemma insertNode_keys_kept:
  "insertNode h k s t ix = Done (idx, t', ix') \<Longrightarrow> keys_kept t t'"
proof (induction k arbitrary: s t ix idx t' ix')
  case 0
  then show ?case by simp
next
  case (Suc k)
  show ?case
  proof (cases "ix s \<noteq> 0")
    case True
    with Suc.prems show ?thesis by (simp add: keys_kept_refl)
  next
    case False
    let ?s = "store h s"
    from False Suc.prems obtain t0 t1 t2 where
      f: "findIndex t ?s = Done (idx, t0)"
      and w: "(if isWord ?s then SetKey t0 idx 1 else Done t0) = Done t1"
      and ck: "setChildKeys (children ?s) idx 0 t1 = Done t2"
      and pc: "placeChildren (insertNode h k) (children ?s) idx 0 t2 (ix(s := idx + 1))
        = Done (t', ix')"
      by (auto split: go.splits prod.splits)
    from findIndex_placeable [OF f] have idx: "0 \<le> idx"
      and free: "\<And>j. 0 \<le> j \<Longrightarrow> j \<le> int (length (children ?s)) \<Longrightarrow> live ?s j
        \<Longrightarrow> keyAt t0 (nat (idx + j)) = 0"
      by (simp_all add: placeable_def)
    have k0: "keys_kept t t0"
      using findIndex_Done(2) [OF f] by (rule grown_keys_kept)
    have k1: "keys_kept t0 t1"
      and same: "\<And>j. j \<noteq> nat idx \<Longrightarrow> keyAt t1 j = keyAt t0 j"
    proof -
      show "keys_kept t0 t1"
      proof (cases "isWord ?s")
        case True
        with w have sk: "SetKey t0 idx 1 = Done t1" by simp
        from free [of 0] True have "keyAt t0 (nat idx) = 0" by (simp add: live_def)
        with sk show ?thesis by (rule SetKey_keys_kept)
      next
        case False
        with w show ?thesis by (simp add: keys_kept_refl)
      qed
      fix j assume "j \<noteq> nat idx"
      with w show "keyAt t1 j = keyAt t0 j"
        using SetKey_Done(5) [of t0 idx 1 t1 j] by (auto split: if_splits)
    qed
    have "\<forall>j < length (children ?s). children ?s ! j \<noteq> None
        \<longrightarrow> keyAt t1 (nat (idx + 0 + int j + 1)) = 0"
    proof (intro allI impI)
      fix j assume j: "j < length (children ?s)" and l: "children ?s ! j \<noteq> None"
      then have "live ?s (int j + 1)" by (simp add: live_def)
      with free [of "int j + 1"] j have "keyAt t0 (nat (idx + (int j + 1))) = 0" by simp
      moreover from idx have "nat (idx + (int j + 1)) \<noteq> nat idx" by simp
      ultimately show "keyAt t1 (nat (idx + 0 + int j + 1)) = 0"
        using same by (simp add: add.assoc)
    qed
    from setChildKeys_keys_kept [OF ck idx _ this] have k2: "keys_kept t1 t2" by simp
    have k3: "keys_kept t2 t'"
      by (rule placeChildren_keys_kept [where rec = "insertNode h k", OF Suc.IH pc])
    from k0 k1 k2 k3 show ?thesis by (blast intro: keys_kept_trans)
  qed
qed

text \<open>C5. A placement never overwrites a key that is set: every cell that carries a
  nonzero key before \<open>insertNode\<close> places a node (and, recursively, its children) carries
  the same key afterwards. The base \<open>findIndex\<close> returns fits the node: in the table it
  returns (the old cells, unchanged, followed by new empty ones) the node's \<open>N + 1\<close> cells
  exist, no cell at an offset \<open>j\<close> of \<open>[0, N]\<close> carries key \<open>j + 1\<close>, and every live slot
  of the node lands on a cell with key 0.\<close>

theorem packed_keys_written_once:
  "(insertNode h k s t ix = Done (idx, t', ix') \<longrightarrow> keys_kept t t')
   \<and> (findIndex t sn = Done (i, t1) \<longrightarrow> placeable t1 sn i \<and> grown t t1)"
  using insertNode_keys_kept [of h k s t ix idx t' ix'] findIndex_placeable [of t sn i t1]
    findIndex_Done(2) [of t sn i t1]
  by blast

section \<open>Suffix compression keeps the recognised words\<close>

text \<open>What a walk from a node along a sequence of child indexes finds: a fault (an index
  outside the child array), a nil child, or a node and its word flag.\<close>

datatype walk = Fault | Dead | Live bool

fun beh :: "heap \<Rightarrow> addr \<Rightarrow> int list \<Rightarrow> walk" where
  "beh h a [] = Live (isWord (store h a))"
| "beh h a (i # is) =
     (if i < 0 \<or> int (length (children (store h a))) \<le> i then Fault
      else case children (store h a) ! nat i of
        None \<Rightarrow> Dead
      | Some q \<Rightarrow> beh h q is)"

definition slot_beh :: "heap \<Rightarrow> addr option \<Rightarrow> int list \<Rightarrow> walk" where
  "slot_beh h x is = (case x of None \<Rightarrow> Dead | Some q \<Rightarrow> beh h q is)"

lemma beh_Cons_slot:
  "beh h a (i # is) =
     (if i < 0 \<or> int (length (children (store h a))) \<le> i then Fault
      else slot_beh h (children (store h a) ! nat i) is)"
  by (simp add: slot_beh_def)

text \<open>Replacing a child by a node that behaves like it changes no node's behaviour.\<close>

lemma beh_update:
  assumes h': "h' = h\<lparr>store := (store h)
      (t := (store h t)\<lparr>children := (children (store h t))[i := c]\<rparr>)\<rparr>"
    and i: "i < length (children (store h t))"
    and same: "\<And>is. slot_beh h c is = slot_beh h (children (store h t) ! i) is"
  shows "beh h' p is = beh h p is"
proof (induction "is" arbitrary: p)
  case Nil
  show ?case by (simp add: h')
next
  case (Cons j js)
  have len: "length (children (store h' p)) = length (children (store h p))"
    by (simp add: h')
  have slot: "slot_beh h' x js = slot_beh h x js" for x
    by (cases x) (simp_all add: slot_beh_def Cons.IH)
  show ?case
  proof (cases "j < 0 \<or> int (length (children (store h p))) \<le> j")
    case True
    with len show ?thesis by simp
  next
    case False
    show ?thesis
    proof (cases "p = t \<and> nat j = i")
      case True
      with i have "children (store h' p) ! nat j = c" by (simp add: h')
      with False len have "beh h' p (j # js) = slot_beh h' c js"
        by (simp add: beh_Cons_slot del: beh.simps)
      also have "\<dots> = slot_beh h c js" by (rule slot)
      also have "\<dots> = slot_beh h (children (store h t) ! i) js" by (rule same)
      also from True False have "\<dots> = beh h p (j # js)"
        by (simp add: beh_Cons_slot del: beh.simps)
      finally show ?thesis .
    next
      case F2: False
      then have "children (store h' p) ! nat j = children (store h p) ! nat j"
        by (auto simp: h')
      with False len slot show ?thesis
        by (simp add: beh_Cons_slot del: beh.simps)
    qed
  qed
qed

lemma shapeLoop_True:
  "shapeLoop xs ys = Done True \<Longrightarrow> length xs = length ys \<Longrightarrow> i < length xs \<Longrightarrow>
     (xs ! i = None) = (ys ! i = None)"
proof (induction xs ys arbitrary: i rule: shapeLoop.induct)
  case (1 ts)
  then show ?case by simp
next
  case (2 x xs)
  then show ?case by simp
next
  case (3 x xs y ys)
  then show ?case by (cases i) (auto split: if_splits)
qed

lemma eqLoop_True:
  "eqLoop rec xs ys = Done True \<Longrightarrow> length xs = length ys \<Longrightarrow> i < length xs \<Longrightarrow>
     xs ! i = Some a \<Longrightarrow> \<exists>b. ys ! i = Some b \<and> rec a b = Done True"
proof (induction rec xs ys arbitrary: i rule: eqLoop.induct)
  case (1 rec ts)
  then show ?case by simp
next
  case (2 rec x xs)
  then show ?case by simp
next
  case (3 rec x xs y ys)
  show ?case
  proof (cases i)
    case 0
    with "3.prems" show ?thesis
      by (auto split: option.splits go.splits if_splits)
  next
    case (Suc n)
    from "3.prems"(1) have run: "eqLoop rec xs ys = Done True"
      by (auto split: option.splits go.splits if_splits)
    show ?thesis
    proof (cases x)
      case None
      from "3.IH"(1) [OF None run, of n] "3.prems" Suc show ?thesis by simp
    next
      case (Some a')
      with "3.prems"(1) obtain b' where y: "y = Some b'" and e: "rec a' b' = Done True"
        by (auto split: option.splits go.splits if_splits)
      from "3.IH"(2) [OF Some y e _ run, of n] "3.prems" Suc show ?thesis by simp
    qed
  qed
qed

lemma nodesEqual_sound:
  "nodesEqual h k s t = Done True \<Longrightarrow> arena_ok N h \<Longrightarrow> s < htop h \<Longrightarrow> t < htop h \<Longrightarrow>
     beh h s is = beh h t is"
proof (induction k arbitrary: s t "is")
  case 0
  then show ?case by simp
next
  case (Suc k)
  show ?case
  proof (cases "s = t")
    case True
    then show ?thesis by simp
  next
    case False
    let ?xs = "children (store h s)" and ?ys = "children (store h t)"
    from False Suc.prems(1) have w: "isWord (store h s) = isWord (store h t)"
      and sh: "shapeLoop ?xs ?ys = Done True"
      and eq: "eqLoop (nodesEqual h k) ?xs ?ys = Done True"
      by (auto split: if_splits go.splits)
    from Suc.prems(2,3,4) have len: "length ?xs = N" "length ?ys = N"
      by (simp_all add: arena_ok_def)
    show ?thesis
    proof (cases "is")
      case Nil
      with w show ?thesis by simp
    next
      case (Cons j js)
      show ?thesis
      proof (cases "j < 0 \<or> int N \<le> j")
        case True
        with len Cons show ?thesis by simp
      next
        case inr: False
        then have j: "nat j < length ?xs" using len by linarith
        show ?thesis
        proof (cases "?xs ! nat j")
          case None
          with shapeLoop_True [OF sh _ j] len have "?ys ! nat j = None" by simp
          with None inr len Cons show ?thesis by simp
        next
          case (Some a)
          from eqLoop_True [OF eq _ j Some] len obtain b where
            b: "?ys ! nat j = Some b" and e: "nodesEqual h k a b = Done True" by auto
          from Some j Suc.prems(2,3) have "a < htop h"
            by (metis arena_ok_def nth_mem)
          moreover from b j len Suc.prems(2,4) have "b < htop h"
            by (metis arena_ok_def nth_mem)
          ultimately have "beh h a js = beh h b js"
            using Suc.IH [OF e Suc.prems(2)] by simp
          with Some b inr len Cons show ?thesis by simp
        qed
      qed
    qed
  qed
qed

text \<open>Every node kept in a bucket of \<open>ct.done\<close> is allocated.\<close>

definition ct_ok :: "heap \<Rightarrow> compressTable \<Rightarrow> bool" where
  "ct_ok h ct \<longleftrightarrow> (\<forall>hv b s. ct_done ct hv = Some b \<longrightarrow> s \<in> set b \<longrightarrow> s < htop h)"

lemma findEqual_Some:
  "findEqual h k ss t = Done (Some s) \<Longrightarrow> s \<in> set ss \<and> nodesEqual h k s t = Done True"
  by (induction ss) (auto split: go.splits if_splits)

lemma findEqual_None: "findEqual h k ss t = Done None \<Longrightarrow> True"
  by simp

lemma ct_insertNode_correct:
  assumes run: "ct_insertNode h k a ct = Done (r, ct')"
    and ok: "arena_ok N h" and ct: "ct_ok h ct" and a: "a < htop h"
  shows "r < htop h" and "ct_ok h ct'" and "beh h r is = beh h a is"
proof -
  from run obtain hv hs where hash: "hash h k a (ct_hashes ct) = Done (hv, hs)"
    by (auto simp: ct_insertNode_def split: go.splits)
  let ?ct1 = "ct\<lparr>ct_hashes := hs\<rparr>"
  let ?ct2 = "if ct_done ?ct1 hv = None
    then ?ct1\<lparr>ct_done := (ct_done ?ct1)(hv \<mapsto> [])\<rparr> else ?ct1"
  let ?bucket = "case ct_done ?ct2 hv of None \<Rightarrow> [] | Some b \<Rightarrow> b"
  have ok2: "ct_ok h ?ct2"
    using ct unfolding ct_ok_def by (auto split: if_splits)
  have bk: "s < htop h" if "s \<in> set ?bucket" for s
  proof (cases "ct_done ?ct2 hv")
    case None
    with that show ?thesis by simp
  next
    case (Some b)
    with that ok2 show ?thesis unfolding ct_ok_def by (metis option.simps(5))
  qed
  have "r < htop h \<and> ct_ok h ct' \<and> beh h r is = beh h a is"
  proof (cases "findEqual h k ?bucket a")
    case (Done found)
    show ?thesis
    proof (cases found)
      case (Some s)
      with Done run hash have r: "r = s"
        and c: "ct' = ?ct2\<lparr>ct_duplicates := ct_duplicates ?ct2 + 1\<rparr>"
        by (auto simp: ct_insertNode_def Let_def split: if_splits)
      from Done Some findEqual_Some have mem: "s \<in> set ?bucket"
        and eq: "nodesEqual h k s a = Done True" by blast+
      from bk [OF mem] have s: "s < htop h" .
      from nodesEqual_sound [OF eq ok s a] have "beh h s is = beh h a is" .
      moreover from ok2 have "ct_ok h ct'" unfolding c ct_ok_def by simp
      ultimately show ?thesis using r s by simp
    next
      case None
      with Done run hash have r: "r = a"
        and c: "ct_done ct' = (ct_done ?ct2)(hv \<mapsto> ?bucket @ [a])"
        by (auto simp: ct_insertNode_def Let_def split: if_splits)
      have "ct_ok h ct'"
        unfolding ct_ok_def
      proof (intro allI impI)
        fix hv' b s assume b: "ct_done ct' hv' = Some b" and s: "s \<in> set b"
        show "s < htop h"
        proof (cases "hv' = hv")
          case True
          with b c have "b = ?bucket @ [a]" by simp
          with s bk a show ?thesis by auto
        next
          case False
          with b c have "ct_done ?ct2 hv' = Some b" by simp
          with ok2 s show ?thesis unfolding ct_ok_def by blast
        qed
      qed
      with r a show ?thesis by simp
    qed
  next
    case Panic
    with run hash show ?thesis by (simp add: ct_insertNode_def Let_def)
  next
    case OutOfFuel
    with run hash show ?thesis by (simp add: ct_insertNode_def Let_def)
  qed
  then show "r < htop h" and "ct_ok h ct'" and "beh h r is = beh h a is" by simp_all
qed

text \<open>What a call of \<open>compressNode\<close> on child pointer \<open>t\<close> guarantees.\<close>

definition compress_post :: "nat \<Rightarrow> addr option \<Rightarrow> heap \<Rightarrow> addr option \<Rightarrow> heap \<Rightarrow> compressTable \<Rightarrow> bool" where
  "compress_post N t h r h' ct' \<longleftrightarrow>
     arena_ok N h' \<and> ct_ok h' ct' \<and> htop h' = htop h
     \<and> (\<forall>p is. beh h' p is = beh h p is)
     \<and> (\<forall>is. slot_beh h' r is = slot_beh h' t is)
     \<and> (\<forall>a. r = Some a \<longrightarrow> a < htop h')"

lemma compressLoop_correct:
  assumes rec: "\<And>t h ct r h' ct'. rec t h ct = Done (r, h', ct') \<Longrightarrow> arena_ok N h \<Longrightarrow>
      ct_ok h ct \<Longrightarrow> (\<forall>a. t = Some a \<longrightarrow> a < htop h) \<Longrightarrow> compress_post N t h r h' ct'"
  shows "compressLoop rec a idxs h ct = Done (h', ct') \<Longrightarrow> arena_ok N h \<Longrightarrow> ct_ok h ct \<Longrightarrow>
     a < htop h \<Longrightarrow> (\<forall>i \<in> set idxs. i < N) \<Longrightarrow>
     arena_ok N h' \<and> ct_ok h' ct' \<and> htop h' = htop h \<and> (\<forall>p is. beh h' p is = beh h p is)"
proof (induction idxs arbitrary: h ct)
  case Nil
  then show ?case by simp
next
  case (Cons i idxs)
  let ?x = "children (store h a) ! i"
  from Cons.prems(1) obtain c h1 ct1 where
    r: "rec ?x h ct = Done (c, h1, ct1)"
    and run: "compressLoop rec a idxs
        (h1\<lparr>store := (store h1)(a := (store h1 a)\<lparr>children := (children (store h1 a))[i := c]\<rparr>)\<rparr>)
        ct1 = Done (h', ct')"
    by (auto split: go.splits)
  define h2 where "h2 = h1\<lparr>store := (store h1)
      (a := (store h1 a)\<lparr>children := (children (store h1 a))[i := c]\<rparr>)\<rparr>"
  from Cons.prems(2,4,5) have len: "length (children (store h a)) = N" and iN: "i < N"
    by (simp_all add: arena_ok_def)
  have x: "\<forall>q. ?x = Some q \<longrightarrow> q < htop h"
    using Cons.prems(2,4) len iN by (metis arena_ok_def nth_mem)
  from rec [OF r Cons.prems(2) Cons.prems(3) x]
  have ok1: "arena_ok N h1" and ct1: "ct_ok h1 ct1" and top1: "htop h1 = htop h"
    and beh1: "\<And>p is. beh h1 p is = beh h p is"
    and res: "\<And>is. slot_beh h1 c is = slot_beh h1 ?x is"
    and c: "\<And>q. c = Some q \<Longrightarrow> q < htop h1"
    by (simp_all add: compress_post_def)
  from ok1 top1 Cons.prems(4) have len1: "length (children (store h1 a)) = N"
    by (simp add: arena_ok_def)
  have sx: "slot_beh h1 y is = slot_beh h y is" for y "is"
    by (cases y) (simp_all add: slot_beh_def beh1)
  have same: "slot_beh h1 c is = slot_beh h1 (children (store h1 a) ! i) is" for "is"
  proof -
    have "slot_beh h1 (children (store h1 a) ! i) is = beh h1 a (int i # is)"
      using len1 iN by (simp add: beh_Cons_slot del: beh.simps)
    also have "\<dots> = beh h a (int i # is)" by (rule beh1)
    also have "\<dots> = slot_beh h ?x is"
      using len iN by (simp add: beh_Cons_slot del: beh.simps)
    also have "\<dots> = slot_beh h1 ?x is" by (rule sx [symmetric])
    also have "\<dots> = slot_beh h1 c is" by (rule res [symmetric])
    finally show ?thesis by simp
  qed
  have beh2: "beh h2 p is = beh h1 p is" for p "is"
    using h2_def _ same by (rule beh_update) (simp add: len1 iN)
  have top2: "htop h2 = htop h" by (simp add: h2_def top1)
  have ok2: "arena_ok N h2"
    unfolding arena_ok_def
  proof (intro allI impI)
    fix p assume p: "p < htop h2"
    show "length (children (store h2 p)) = N
        \<and> (\<forall>q. Some q \<in> set (children (store h2 p)) \<longrightarrow> q < htop h2)"
    proof (cases "p = a")
      case True
      have "q < htop h2" if "Some q \<in> set ((children (store h1 a))[i := c])" for q
      proof -
        from that have "Some q \<in> insert c (set (children (store h1 a)))"
          using set_update_subset_insert by fastforce
        then show ?thesis
          using c ok1 top1 top2 Cons.prems(4) by (auto simp: arena_ok_def)
      qed
      with True len1 show ?thesis by (simp add: h2_def)
    next
      case False
      with p ok1 top1 top2 show ?thesis by (simp add: h2_def arena_ok_def)
    qed
  qed
  have ct2: "ct_ok h2 ct1" using ct1 top1 top2 by (simp add: ct_ok_def)
  from run have run2: "compressLoop rec a idxs h2 ct1 = Done (h', ct')" by (simp add: h2_def)
  from Cons.IH [OF run2 ok2 ct2] Cons.prems(4,5) top2
  have "arena_ok N h' \<and> ct_ok h' ct' \<and> htop h' = htop h2 \<and> (\<forall>p is. beh h' p is = beh h2 p is)"
    by simp
  with top2 beh2 beh1 show ?case by simp
qed

lemma compressNode_Some:
  assumes "compressNode (Suc k) (Some a) h ct = Done (r, h', ct')"
  obtains h1 ct1 r' where
      "compressLoop (compressNode k) a [0 ..< length (children (store h a))] h ct = Done (h1, ct1)"
      and "ct_insertNode h1 (Suc k) a ct1 = Done (r', ct')"
      and "r = Some r'" and "h' = h1"
proof (cases "compressLoop (compressNode k) a [0 ..< length (children (store h a))] h ct")
  case (Done x)
  obtain h1 ct1 where x: "x = (h1, ct1)" by (cases x)
  show ?thesis
  proof (cases "ct_insertNode h1 (Suc k) a ct1")
    case d: (Done y)
    obtain r' ct2 where y: "y = (r', ct2)" by (cases y)
    from assms Done x d y have "r = Some r'" "h' = h1" "ct2 = ct'" by simp_all
    with that Done x d y show ?thesis by simp
  next
    case Panic
    with assms Done x show ?thesis by simp
  next
    case OutOfFuel
    with assms Done x show ?thesis by simp
  qed
next
  case Panic
  with assms show ?thesis by simp
next
  case OutOfFuel
  with assms show ?thesis by simp
qed

lemma compressNode_correct:
  "compressNode k t h ct = Done (r, h', ct') \<Longrightarrow> arena_ok N h \<Longrightarrow> ct_ok h ct \<Longrightarrow>
     (\<forall>a. t = Some a \<longrightarrow> a < htop h) \<Longrightarrow> compress_post N t h r h' ct'"
proof (induction k arbitrary: t h ct r h' ct')
  case 0
  then show ?case by simp
next
  case (Suc k)
  show ?case
  proof (cases t)
    case None
    with Suc.prems(1) have "r = None" "h' = h" "ct' = ct" by simp_all
    with None Suc.prems(2,3) show ?thesis by (simp add: compress_post_def)
  next
    case (Some a)
    with Suc.prems(1) obtain h1 ct1 r' where
      loop: "compressLoop (compressNode k) a [0 ..< length (children (store h a))] h ct
        = Done (h1, ct1)"
      and ins: "ct_insertNode h1 (Suc k) a ct1 = Done (r', ct')"
      and r: "r = Some r'" and h': "h' = h1"
      using compressNode_Some [of k a h ct r h' ct'] by blast
    from Some Suc.prems(4) have a: "a < htop h" by simp
    with Suc.prems(2) have len: "length (children (store h a)) = N" by (simp add: arena_ok_def)
    have idx: "\<forall>i \<in> set [0 ..< length (children (store h a))]. i < N"
      using len by simp
    have rec: "compress_post N t h r h' ct'"
      if "compressNode k t h ct = Done (r, h', ct')" and "arena_ok N h" and "ct_ok h ct"
        and "\<forall>a. t = Some a \<longrightarrow> a < htop h" for t h ct r h' ct'
      using that by (rule Suc.IH)
    have "arena_ok N h1 \<and> ct_ok h1 ct1 \<and> htop h1 = htop h \<and> (\<forall>p is. beh h1 p is = beh h p is)"
      using rec loop Suc.prems(2) Suc.prems(3) a idx
      by (rule compressLoop_correct)
    then have ok1: "arena_ok N h1" and ct1: "ct_ok h1 ct1" and top1: "htop h1 = htop h"
      and beh1: "\<And>p is. beh h1 p is = beh h p is"
      by blast+
    from a top1 have a1: "a < htop h1" by simp
    note i = ct_insertNode_correct [OF ins ok1 ct1 a1]
    have s: "slot_beh h1 (Some r') is = slot_beh h1 (Some a) is" for "is"
      using i(3) by (simp add: slot_beh_def)
    show ?thesis
      unfolding compress_post_def r h' Some
      using ok1 i(1) i(2) top1 beh1 s by blast
  qed
qed

text \<open>Following the bytes of a string from a node, and the answers of the node reached,
  as in \<open>t.Follow('C').Follow('A').Follow('T').IsWord()\<close>.\<close>

fun followAll :: "heap \<Rightarrow> TrieNode \<Rightarrow> byte list \<Rightarrow> TrieNode go" where
  "followAll h n [] = Done n"
| "followAll h n (c # cs) =
     (case Follow h n c of
        Done n' \<Rightarrow> followAll h n' cs
      | Panic \<Rightarrow> Panic | OutOfFuel \<Rightarrow> OutOfFuel)"

definition isWordAfter :: "heap \<Rightarrow> TrieNode \<Rightarrow> byte list \<Rightarrow> bool go" where
  "isWordAfter h n w =
     (case followAll h n w of
        Done n' \<Rightarrow> IsWord h n' | Panic \<Rightarrow> Panic | OutOfFuel \<Rightarrow> OutOfFuel)"

definition isPrefixAfter :: "heap \<Rightarrow> TrieNode \<Rightarrow> byte list \<Rightarrow> bool go" where
  "isPrefixAfter h n w =
     (case followAll h n w of
        Done n' \<Rightarrow> IsPrefix h n' | Panic \<Rightarrow> Panic | OutOfFuel \<Rightarrow> OutOfFuel)"

lemma isWordAfter_nil: "isWordAfter h NilTrieNode w = Panic"
  by (cases w) (simp_all add: isWordAfter_def IsWord_def Follow_def)

lemma isPrefixAfter_nil: "isPrefixAfter h NilTrieNode w = Panic"
  by (cases w) (simp_all add: isPrefixAfter_def IsPrefix_def Follow_def)

lemmas after_nil = isWordAfter_nil isPrefixAfter_nil

lemma after_Cons:
  "isWordAfter h n (c # cs) =
     (case Follow h n c of Done n' \<Rightarrow> isWordAfter h n' cs | Panic \<Rightarrow> Panic | OutOfFuel \<Rightarrow> OutOfFuel)"
  "isPrefixAfter h n (c # cs) =
     (case Follow h n c of Done n' \<Rightarrow> isPrefixAfter h n' cs | Panic \<Rightarrow> Panic | OutOfFuel \<Rightarrow> OutOfFuel)"
  by (simp_all add: isWordAfter_def isPrefixAfter_def split: go.splits)

text \<open>Two arena nodes with the same behaviour give the same answers on every string,
  faults included.\<close>

lemma after_beh:
  assumes "\<And>is. beh h a is = beh h' a' is"
  shows "isWordAfter h (SimplePtr (Some \<lparr>sn_s = Some a, sn_cm = cm\<rparr>)) w
       = isWordAfter h' (SimplePtr (Some \<lparr>sn_s = Some a', sn_cm = cm\<rparr>)) w
     \<and> isPrefixAfter h (SimplePtr (Some \<lparr>sn_s = Some a, sn_cm = cm\<rparr>)) w
       = isPrefixAfter h' (SimplePtr (Some \<lparr>sn_s = Some a', sn_cm = cm\<rparr>)) w"
  using assms
proof (induction w arbitrary: a a')
  case Nil
  from Nil [of "[]"] show ?case
    by (simp add: isWordAfter_def isPrefixAfter_def IsWord_def IsPrefix_def simple_IsWord_def
        simple_IsPrefix_def)
next
  case (Cons c cs)
  let ?i = "cm c - 1"
  let ?xs = "children (store h a)" and ?ys = "children (store h' a')"
  show ?case
  proof (cases "cm c = 0")
    case True
    then show ?thesis
      by (simp add: after_Cons Follow_def simple_Follow_def after_nil)
  next
    case nz: False
    have one: "beh h a [?i] = beh h' a' [?i]" by (rule Cons.prems)
    show ?thesis
    proof (cases "?i < 0 \<or> int (length ?xs) \<le> ?i")
      case True
      then have "beh h a [?i] = Fault" by simp
      with one have "beh h' a' [?i] = Fault" by simp
      then have "?i < 0 \<or> int (length ?ys) \<le> ?i"
        by (auto split: if_splits option.splits)
      with True nz show ?thesis
        by (simp add: after_Cons Follow_def simple_Follow_def Let_def)
    next
      case inr: False
      then have "beh h a [?i] \<noteq> Fault" by (auto split: option.splits)
      with one have "beh h' a' [?i] \<noteq> Fault" by simp
      then have inr': "\<not> (?i < 0 \<or> int (length ?ys) \<le> ?i)"
        by (auto split: if_splits)
      show ?thesis
      proof (cases "?xs ! nat ?i")
        case None
        with inr have "beh h a [?i] = Dead" by simp
        with one have "beh h' a' [?i] = Dead" by simp
        with inr' have "?ys ! nat ?i = None"
          by (auto split: if_splits option.splits)
        with None inr inr' nz show ?thesis
          by (simp add: after_Cons Follow_def simple_Follow_def Let_def after_nil)
      next
        case (Some q)
        with inr have "beh h a [?i] = Live (isWord (store h q))" by simp
        with one have "beh h' a' [?i] = Live (isWord (store h q))" by simp
        with inr' obtain q' where q': "?ys ! nat ?i = Some q'"
          by (auto split: if_splits option.splits)
        have "beh h q is = beh h' q' is" for "is"
          using Cons.prems [of "?i # is"] Some q' inr inr' by simp
        from Cons.IH [OF this] Some q' inr inr' nz show ?thesis
          by (simp add: after_Cons Follow_def simple_Follow_def Let_def)
      qed
    qed
  qed
qed

text \<open>Whenever \<open>scBuilder.Root\<close> returns on a trie built by \<open>AddWord\<close> calls, its root
  answers after any byte string as the uncompressed root did before, panics included.\<close>

lemma sc_Root_answers:
  assumes "NewSimpleBuilder cm emptyHeap = Done (b, h0)"
    and "addWords b h0 ws = Done h"
    and "sc_Root k b h = Done (r, h')"
  shows "isWordAfter h' r w = isWordAfter h (simple_Root b) w
    \<and> isPrefixAfter h' r w = isPrefixAfter h (simple_Root b) w"
proof -
  note nb = NewSimpleBuilder_ok [OF assms(1)]
  from nb(2,3) have b: "b = \<lparr>sn_s = Some 0, sn_cm = cm\<rparr>" by (cases b) simp
  from addWords_ok [OF assms(2)] nb
  have ok: "arena_ok (nat (cm_max cm)) h" and r0: "0 < htop h" by simp_all
  have ct: "ct_ok h emptyCompressTable"
    by (simp add: ct_ok_def emptyCompressTable_def)
  from assms(3) obtain x ct' where
    run: "compressNode k (Some 0) h emptyCompressTable = Done (x, h', ct')"
    and r: "r = SimplePtr (Some \<lparr>sn_s = x, sn_cm = cm\<rparr>)"
    by (auto simp: sc_Root_def compress_def b split: go.splits)
  from compressNode_correct [OF run ok ct] r0
  have post: "compress_post (nat (cm_max cm)) (Some 0) h x h' ct'" by simp
  then have same: "\<And>p is. beh h' p is = beh h p is"
    and root: "\<And>is. slot_beh h' x is = slot_beh h' (Some 0) is"
    by (simp_all add: compress_post_def)
  from root [of "[]"] obtain r' where x: "x = Some r'"
    by (cases x) (simp_all add: slot_beh_def)
  have "beh h' r' is = beh h 0 is" for "is"
    using root [of "is"] same [of 0 "is"] by (simp add: x slot_beh_def)
  from after_beh [OF this] show ?thesis
    by (simp add: r x b simple_Root_def)
qed

section \<open>Packed construction: the table represents the nodes\<close>

lemma cellValue_SetKey: "drop_bit 8 (((c::32 word) AND - 256) OR ucast (k::byte)) = drop_bit 8 c"
proof -
  have "drop_bit 8 (((c::32 word) AND NOT (mask 8)) OR ucast (k::byte)) = drop_bit 8 c"
    by (rule bit_word_eqI) (auto simp: bit_simps dest: bit_imp_le_length)
  then show ?thesis by (simp add: mask8 [symmetric])
qed

lemma cellValue_SetValue:
  "drop_bit 8 (((c::32 word) AND 255) OR push_bit 8 v) = take_bit 24 v"
  unfolding mask8
  by (rule bit_word_eqI) (auto simp: bit_simps)

lemma SetKey_effect:
  assumes "SetKey t x k = Done t'"
  shows "0 \<le> x" and "x < int (length (cells t))" and "length (cells t') = length (cells t)"
    and "tbl_cm t' = tbl_cm t"
    and "cellKey (cells t' ! nat x) = k"
    and "drop_bit 8 (cells t' ! nat x) = drop_bit 8 (cells t ! nat x)"
    and "\<And>y. y \<noteq> nat x \<Longrightarrow> cells t' ! y = cells t ! y"
proof -
  from assms show x: "0 \<le> x" "x < int (length (cells t))"
    by (auto simp: SetKey_def split: if_splits)
  from assms have t': "t' = t\<lparr>cells := (cells t)[nat x := ((cells t ! nat x) AND - 256) OR ucast k]\<rparr>"
    by (auto simp: SetKey_def split: if_splits)
  show "length (cells t') = length (cells t)" and "tbl_cm t' = tbl_cm t"
    by (simp_all add: t')
  from x have new: "cells t' ! nat x = ((cells t ! nat x) AND - 256) OR ucast k"
    by (simp add: t')
  show "cellKey (cells t' ! nat x) = k"
    by (simp only: new cellKey_SetKey')
  show "drop_bit 8 (cells t' ! nat x) = drop_bit 8 (cells t ! nat x)"
    by (simp only: new cellValue_SetKey)
  show "cells t' ! y = cells t ! y" if "y \<noteq> nat x" for y
    using that by (simp add: t')
qed

lemma SetValue_effect:
  assumes "SetValue t x v = Done t'"
  shows "0 \<le> x" and "x < int (length (cells t))" and "length (cells t') = length (cells t)"
    and "tbl_cm t' = tbl_cm t"
    and "cellKey (cells t' ! nat x) = cellKey (cells t ! nat x)"
    and "drop_bit 8 (cells t' ! nat x) = take_bit 24 v"
    and "\<And>y. y \<noteq> nat x \<Longrightarrow> cells t' ! y = cells t ! y"
proof -
  from assms show x: "0 \<le> x" "x < int (length (cells t))"
    by (auto simp: SetValue_def split: if_splits)
  from assms have t': "t' = t\<lparr>cells := (cells t)[nat x := ((cells t ! nat x) AND 255) OR push_bit 8 v]\<rparr>"
    by (auto simp: SetValue_def split: if_splits)
  show "length (cells t') = length (cells t)" and "tbl_cm t' = tbl_cm t"
    by (simp_all add: t')
  from x have new: "cells t' ! nat x = ((cells t ! nat x) AND 255) OR push_bit 8 v"
    by (simp add: t')
  show "cellKey (cells t' ! nat x) = cellKey (cells t ! nat x)"
    by (simp only: new cellKey_SetValue)
  show "drop_bit 8 (cells t' ! nat x) = take_bit 24 v"
    by (simp only: new cellValue_SetValue)
  show "cells t' ! y = cells t ! y" if "y \<noteq> nat x" for y
    using that by (simp add: t')
qed

lemma setChildKeys_effect:
  "setChildKeys chs idx i0 t = Done t' \<Longrightarrow> 0 \<le> idx \<Longrightarrow> 0 \<le> i0 \<Longrightarrow>
     length (cells t') = length (cells t) \<and> tbl_cm t' = tbl_cm t
     \<and> (\<forall>x. drop_bit 8 (cells t' ! x) = drop_bit 8 (cells t ! x))
     \<and> (\<forall>j < length chs. chs ! j \<noteq> None \<longrightarrow>
            cellKey (cells t' ! nat (idx + i0 + int j + 1)) = of_int (i0 + int j + 2))
     \<and> (\<forall>x. (\<forall>j < length chs. chs ! j \<noteq> None \<longrightarrow> x \<noteq> nat (idx + i0 + int j + 1))
            \<longrightarrow> cells t' ! x = cells t ! x)"
proof (induction chs arbitrary: i0 t)
  case Nil
  then show ?case by simp
next
  case (Cons ch chs)
  have shift: "idx + (i0 + 1) + int j + 1 = idx + i0 + int (Suc j) + 1"
    "i0 + 1 + int j + 2 = i0 + int (Suc j) + 2" for j
    by simp_all
  show ?case
  proof (cases "ch = None")
    case True
    with Cons.prems(1) have run: "setChildKeys chs idx (i0 + 1) t = Done t'" by simp
    from Cons.IH [OF run Cons.prems(2)] Cons.prems(3)
    have ih: "length (cells t') = length (cells t) \<and> tbl_cm t' = tbl_cm t
     \<and> (\<forall>x. drop_bit 8 (cells t' ! x) = drop_bit 8 (cells t ! x))
     \<and> (\<forall>j < length chs. chs ! j \<noteq> None \<longrightarrow>
            cellKey (cells t' ! nat (idx + i0 + int (Suc j) + 1)) = of_int (i0 + int (Suc j) + 2))
     \<and> (\<forall>x. (\<forall>j < length chs. chs ! j \<noteq> None \<longrightarrow> x \<noteq> nat (idx + i0 + int (Suc j) + 1))
            \<longrightarrow> cells t' ! x = cells t ! x)"
      by (simp only: shift) simp
    show ?thesis
    proof (intro conjI allI impI)
      show "length (cells t') = length (cells t)" "tbl_cm t' = tbl_cm t" using ih by simp_all
      show "drop_bit 8 (cells t' ! x) = drop_bit 8 (cells t ! x)" for x using ih by simp
    next
      fix j assume j: "j < length (ch # chs)" and l: "(ch # chs) ! j \<noteq> None"
      with True obtain j' where "j = Suc j'" by (cases j) auto
      with j l ih show "cellKey (cells t' ! nat (idx + i0 + int j + 1)) = of_int (i0 + int j + 2)"
        by simp
    next
      fix x assume x: "\<forall>j < length (ch # chs). (ch # chs) ! j \<noteq> None
          \<longrightarrow> x \<noteq> nat (idx + i0 + int j + 1)"
      have "\<forall>j < length chs. chs ! j \<noteq> None \<longrightarrow> x \<noteq> nat (idx + i0 + int (Suc j) + 1)"
      proof (intro allI impI)
        fix j assume "j < length chs" and "chs ! j \<noteq> None"
        with x [rule_format, of "Suc j"] show "x \<noteq> nat (idx + i0 + int (Suc j) + 1)" by simp
      qed
      with ih show "cells t' ! x = cells t ! x" by blast
    qed
  next
    case False
    with Cons.prems(1) obtain t1 where
      sk: "SetKey t (idx + i0 + 1) (of_int (i0 + 2)) = Done t1"
      and run: "setChildKeys chs idx (i0 + 1) t1 = Done t'"
      by (auto split: go.splits)
    note e = SetKey_effect [OF sk]
    from Cons.IH [OF run Cons.prems(2)] Cons.prems(3)
    have ih: "length (cells t') = length (cells t1) \<and> tbl_cm t' = tbl_cm t1
     \<and> (\<forall>x. drop_bit 8 (cells t' ! x) = drop_bit 8 (cells t1 ! x))
     \<and> (\<forall>j < length chs. chs ! j \<noteq> None \<longrightarrow>
            cellKey (cells t' ! nat (idx + i0 + int (Suc j) + 1)) = of_int (i0 + int (Suc j) + 2))
     \<and> (\<forall>x. (\<forall>j < length chs. chs ! j \<noteq> None \<longrightarrow> x \<noteq> nat (idx + i0 + int (Suc j) + 1))
            \<longrightarrow> cells t' ! x = cells t1 ! x)"
      by (simp only: shift) simp
    have first: "cells t' ! nat (idx + i0 + 1) = cells t1 ! nat (idx + i0 + 1)"
    proof -
      have "\<forall>j < length chs. chs ! j \<noteq> None
          \<longrightarrow> nat (idx + i0 + 1) \<noteq> nat (idx + i0 + int (Suc j) + 1)"
        using Cons.prems(2,3) by (auto; linarith)
      with ih show ?thesis by blast
    qed
    show ?thesis
    proof (intro conjI allI impI)
      show "length (cells t') = length (cells t)" "tbl_cm t' = tbl_cm t" using ih e by simp_all
      show "drop_bit 8 (cells t' ! x) = drop_bit 8 (cells t ! x)" for x
        using ih e(6) e(7) [of x] by (cases "x = nat (idx + i0 + 1)") simp_all
    next
      fix j assume j: "j < length (ch # chs)" and l: "(ch # chs) ! j \<noteq> None"
      show "cellKey (cells t' ! nat (idx + i0 + int j + 1)) = of_int (i0 + int j + 2)"
      proof (cases j)
        case 0
        with first e(5) show ?thesis by simp
      next
        case (Suc j')
        with j l ih show ?thesis by simp
      qed
    next
      fix x assume x: "\<forall>j < length (ch # chs). (ch # chs) ! j \<noteq> None
          \<longrightarrow> x \<noteq> nat (idx + i0 + int j + 1)"
      have "\<forall>j < length chs. chs ! j \<noteq> None \<longrightarrow> x \<noteq> nat (idx + i0 + int (Suc j) + 1)"
      proof (intro allI impI)
        fix j assume "j < length chs" and "chs ! j \<noteq> None"
        with x [rule_format, of "Suc j"] show "x \<noteq> nat (idx + i0 + int (Suc j) + 1)" by simp
      qed
      with ih have "cells t' ! x = cells t1 ! x" by blast
      moreover from x [rule_format, of 0] False have "x \<noteq> nat (idx + i0 + 1)" by simp
      ultimately show "cells t' ! x = cells t ! x" using e(7) by simp
    qed
  qed
qed

lemma byte_of_int_inj:
  assumes "(of_int a :: byte) = of_int b" and "0 \<le> a" and "a < 256" and "0 \<le> b" and "b < 256"
  shows "a = b"
proof -
  from assms(1) have "uint (of_int a :: byte) = uint (of_int b :: byte)" by simp
  then have "take_bit 8 a = take_bit 8 b" by (simp add: uint_word_of_int_eq)
  with assms(2-5) show ?thesis by (simp add: take_bit_int_eq_self)
qed

lemma byte_of_int_nonzero:
  assumes "1 \<le> a" and "a < 256"
  shows "(of_int a :: byte) \<noteq> 0"
proof
  assume "(of_int a :: byte) = 0"
  then have "(of_int a :: byte) = of_int 0" by simp
  from byte_of_int_inj [OF this] assms show False by simp
qed

text \<open>The key phase of \<open>insertNode\<close>: after it, the live slots of the node carry their
  keys and no other cell has changed.\<close>

lemma write_keys:
  assumes w: "(if isWord S then SetKey t0 idx 1 else Done t0) = Done t1"
    and ck: "setChildKeys (children S) idx 0 t1 = Done t2"
    and idx: "0 \<le> idx"
  shows "length (cells t2) = length (cells t0)" and "tbl_cm t2 = tbl_cm t0"
    and "\<And>x. drop_bit 8 (cells t2 ! x) = drop_bit 8 (cells t0 ! x)"
    and "\<And>j. 0 \<le> j \<Longrightarrow> j \<le> int (length (children S)) \<Longrightarrow> live S j \<Longrightarrow>
          cellKey (cells t2 ! nat (idx + j)) = of_int (j + 1)"
    and "\<And>x. (\<And>j. 0 \<le> j \<Longrightarrow> j \<le> int (length (children S)) \<Longrightarrow> live S j \<Longrightarrow> x \<noteq> nat (idx + j))
          \<Longrightarrow> cells t2 ! x = cells t0 ! x"
proof -
  from setChildKeys_effect [OF ck idx]
  have c1: "length (cells t2) = length (cells t1)" and c2: "tbl_cm t2 = tbl_cm t1"
    and c3: "\<And>x. drop_bit 8 (cells t2 ! x) = drop_bit 8 (cells t1 ! x)"
    and c4: "\<And>j. j < length (children S) \<Longrightarrow> children S ! j \<noteq> None \<Longrightarrow>
      cellKey (cells t2 ! nat (idx + 0 + int j + 1)) = of_int (0 + int j + 2)"
    and c5: "\<And>x. (\<forall>j < length (children S). children S ! j \<noteq> None
      \<longrightarrow> x \<noteq> nat (idx + 0 + int j + 1)) \<Longrightarrow> cells t2 ! x = cells t1 ! x"
    by simp_all
  have w1: "length (cells t1) = length (cells t0)" and w2: "tbl_cm t1 = tbl_cm t0"
    and w3: "\<And>x. drop_bit 8 (cells t1 ! x) = drop_bit 8 (cells t0 ! x)"
    and w4: "isWord S \<Longrightarrow> cellKey (cells t1 ! nat idx) = 1"
    and w5: "\<And>x. (isWord S \<Longrightarrow> x \<noteq> nat idx) \<Longrightarrow> cells t1 ! x = cells t0 ! x"
  proof -
    show "length (cells t1) = length (cells t0)" and "tbl_cm t1 = tbl_cm t0"
      using w SetKey_effect(3,4) [of t0 idx 1 t1] by (auto split: if_splits)
    show "drop_bit 8 (cells t1 ! x) = drop_bit 8 (cells t0 ! x)" for x
      using w SetKey_effect(6,7) [of t0 idx 1 t1] by (cases "x = nat idx") (auto split: if_splits)
    show "isWord S \<Longrightarrow> cellKey (cells t1 ! nat idx) = 1"
      using w SetKey_effect(5) [of t0 idx 1 t1] by simp
    show "(isWord S \<Longrightarrow> x \<noteq> nat idx) \<Longrightarrow> cells t1 ! x = cells t0 ! x" for x
      using w SetKey_effect(7) [of t0 idx 1 t1 x] by (auto split: if_splits)
  qed
  show "length (cells t2) = length (cells t0)" and "tbl_cm t2 = tbl_cm t0"
    using c1 c2 w1 w2 by simp_all
  show "drop_bit 8 (cells t2 ! x) = drop_bit 8 (cells t0 ! x)" for x
    using c3 w3 by simp
  show "cellKey (cells t2 ! nat (idx + j)) = of_int (j + 1)"
    if j: "0 \<le> j" "j \<le> int (length (children S))" and l: "live S j" for j
  proof (cases "j = 0")
    case True
    with l have iw: "isWord S" by (simp add: live_def)
    have "\<forall>i < length (children S). children S ! i \<noteq> None
        \<longrightarrow> nat idx \<noteq> nat (idx + 0 + int i + 1)"
      using idx by (auto; linarith)
    from c5 [OF this] w4 [OF iw] True show ?thesis by simp
  next
    case False
    with j l have nz: "children S ! nat (j - 1) \<noteq> None" and lt: "nat (j - 1) < length (children S)"
      by (auto simp: live_def)
    from c4 [OF lt nz] j False show ?thesis
      by (simp add: add.commute add.left_commute)
  qed
  show "cells t2 ! x = cells t0 ! x"
    if x: "\<And>j. 0 \<le> j \<Longrightarrow> j \<le> int (length (children S)) \<Longrightarrow> live S j \<Longrightarrow> x \<noteq> nat (idx + j)"
    for x
  proof -
    have "\<forall>i < length (children S). children S ! i \<noteq> None \<longrightarrow> x \<noteq> nat (idx + 0 + int i + 1)"
    proof (intro allI impI)
      fix i assume i: "i < length (children S)" and nz: "children S ! i \<noteq> None"
      then have "live S (int i + 1)" by (simp add: live_def)
      from x [OF _ _ this] i show "x \<noteq> nat (idx + 0 + int i + 1)"
        by (simp add: add.assoc)
    qed
    from c5 [OF this] have "cells t2 ! x = cells t1 ! x" .
    moreover have "cells t1 ! x = cells t0 ! x"
    proof (rule w5)
      assume "isWord S"
      then have "live S 0" by (simp add: live_def)
      from x [OF _ _ this] show "x \<noteq> nat idx" by simp
    qed
    ultimately show ?thesis by simp
  qed
qed

text \<open>The state of the packing between two placements: \<open>ix\<close> is the map \<open>indexes\<close>
  (base + 1 of every placed node, 0 for the others). Every placed node's \<open>N + 1\<close> cells
  exist, the cell at offset \<open>j\<close> carries key \<open>j + 1\<close> exactly when slot \<open>j\<close> of the node is
  live, and no two nodes share a base.\<close>

definition packed_inv :: "heap \<Rightarrow> nat \<Rightarrow> packedTable \<Rightarrow> (addr \<Rightarrow> int) \<Rightarrow> bool" where
  "packed_inv h N t ix \<longleftrightarrow>
     (\<forall>s. ix s \<noteq> 0 \<longrightarrow> s < htop h \<and> 1 \<le> ix s \<and> ix s + int N \<le> int (length (cells t)))
     \<and> (\<forall>s j. ix s \<noteq> 0 \<longrightarrow> 0 \<le> j \<longrightarrow> j \<le> int N \<longrightarrow>
           (keyAt t (nat (ix s - 1 + j)) = of_int (j + 1)) = live (store h s) j)
     \<and> (\<forall>s s'. ix s \<noteq> 0 \<longrightarrow> ix s = ix s' \<longrightarrow> s = s')"

lemma packed_inv_base:
  "packed_inv h N t ix \<Longrightarrow> ix s \<noteq> 0 \<Longrightarrow>
     s < htop h \<and> 1 \<le> ix s \<and> ix s + int N \<le> int (length (cells t))"
  by (simp add: packed_inv_def)

lemma packed_inv_key:
  "packed_inv h N t ix \<Longrightarrow> ix s \<noteq> 0 \<Longrightarrow> 0 \<le> j \<Longrightarrow> j \<le> int N \<Longrightarrow>
     (keyAt t (nat (ix s - 1 + j)) = of_int (j + 1)) = live (store h s) j"
  by (simp add: packed_inv_def)

lemma packed_inv_inj:
  "packed_inv h N t ix \<Longrightarrow> ix s \<noteq> 0 \<Longrightarrow> ix s = ix s' \<Longrightarrow> s = s'"
  unfolding packed_inv_def by blast

lemma uint_byte_of_int:
  "0 \<le> x \<Longrightarrow> x < 256 \<Longrightarrow> uint (of_int x :: byte) = x"
  by (simp add: uint_word_of_int_eq take_bit_int_eq_self)

text \<open>A cell is the live slot of at most one placed node.\<close>

lemma owner_unique:
  assumes inv: "packed_inv h N t ix" and N: "N \<le> 254"
    and p: "ix p \<noteq> 0" and q: "ix q \<noteq> 0"
    and j: "0 \<le> j" "j \<le> int N" and j': "0 \<le> j'" "j' \<le> int N"
    and l: "live (store h p) j" and l': "live (store h q) j'"
    and same: "nat (ix p - 1 + j) = nat (ix q - 1 + j')"
  shows "p = q \<and> j = j'"
proof -
  from packed_inv_key [OF inv p j] l
  have "keyAt t (nat (ix p - 1 + j)) = of_int (j + 1)" by simp
  moreover from packed_inv_key [OF inv q j'] l'
  have "keyAt t (nat (ix q - 1 + j')) = of_int (j' + 1)" by simp
  ultimately have "(of_int (j + 1) :: byte) = of_int (j' + 1)" using same by simp
  from byte_of_int_inj [OF this] j j' N have jj: "j = j'" by simp
  from packed_inv_base [OF inv p] packed_inv_base [OF inv q] same jj j
  have "ix p = ix q" by linarith
  from packed_inv_inj [OF inv p this] jj show ?thesis by simp
qed

text \<open>Every allocated node has a live slot: it is a word or has a child.\<close>

definition all_alive :: "heap \<Rightarrow> nat \<Rightarrow> bool" where
  "all_alive h N \<longleftrightarrow> (\<forall>p < htop h. \<exists>j. 0 \<le> j \<and> j \<le> int N \<and> live (store h p) j)"

text \<open>Placing a new node: after \<open>findIndex\<close> and the key phase the invariant holds with
  the node added, and the live cells of the nodes placed before are untouched.\<close>

lemma place_node:
  assumes inv: "packed_inv h N t ix" and ok: "arena_ok N h" and N: "N \<le> 254"
    and alive: "\<forall>p. ix p \<noteq> 0 \<longrightarrow> (\<exists>j. 0 \<le> j \<and> j \<le> int N \<and> live (store h p) j)"
    and s: "s < htop h" and new: "ix s = 0"
    and f: "findIndex t (store h s) = Done (idx, t0)"
    and w: "(if isWord (store h s) then SetKey t0 idx 1 else Done t0) = Done t1"
    and ck: "setChildKeys (children (store h s)) idx 0 t1 = Done t2"
  shows "packed_inv h N t2 (ix(s := idx + 1))"
    and "\<And>p j. ix p \<noteq> 0 \<Longrightarrow> 0 \<le> j \<Longrightarrow> j \<le> int N \<Longrightarrow> live (store h p) j \<Longrightarrow>
          cells t2 ! nat (ix p - 1 + j) = cells t ! nat (ix p - 1 + j)"
    and "tbl_cm t2 = tbl_cm t"
proof -
  let ?S = "store h s"
  from ok s have len: "length (children ?S) = N" by (simp add: arena_ok_def)
  from findIndex_placeable [OF f] len
  have idx: "0 \<le> idx" and fits: "idx + int N < int (length (cells t0))"
    and nokey: "\<And>j. 0 \<le> j \<Longrightarrow> j \<le> int N \<Longrightarrow> uint (keyAt t0 (nat (idx + j))) \<noteq> j + 1"
    and empty: "\<And>j. 0 \<le> j \<Longrightarrow> j \<le> int N \<Longrightarrow> live ?S j \<Longrightarrow> keyAt t0 (nat (idx + j)) = 0"
    by (simp_all add: placeable_def)
  note g = findIndex_Done(2) [OF f]
  note wk = write_keys [OF w ck idx, unfolded len]
  show "tbl_cm t2 = tbl_cm t" using wk(2) g by (simp add: grown_def)
  have old: "cells t0 ! y = cells t ! y" if "y < length (cells t)" for y
    using g that by (auto simp: grown_def nth_append)
  have written: "keyAt t0 y = 0"
    if "y = nat (idx + j')" "0 \<le> j'" "j' \<le> int N" "live ?S j'" for y j'
    using that empty by simp
  have unwritten: "cells t2 ! y = cells t0 ! y"
    if "\<And>j'. 0 \<le> j' \<Longrightarrow> j' \<le> int N \<Longrightarrow> live ?S j' \<Longrightarrow> y \<noteq> nat (idx + j')" for y
    using that by (rule wk(5))
  have in_t: "nat (ix p - 1 + j) < length (cells t)" if "ix p \<noteq> 0" "0 \<le> j" "j \<le> int N" for p j
    using packed_inv_base [OF inv that(1)] that(2,3) by linarith
  have nz: "(of_int (j + 1) :: byte) \<noteq> 0" if "0 \<le> j" "j \<le> int N" for j
    using that N by (intro byte_of_int_nonzero) simp_all
  have other_base: "ix p \<noteq> idx + 1" if p: "ix p \<noteq> 0" for p
  proof
    assume eq: "ix p = idx + 1"
    from alive p obtain jp where jp: "0 \<le> jp" "jp \<le> int N" and l: "live (store h p) jp"
      by blast
    from packed_inv_key [OF inv p jp] l
    have "keyAt t (nat (ix p - 1 + jp)) = of_int (jp + 1)" by simp
    with old [OF in_t [OF p jp]] have "keyAt t0 (nat (ix p - 1 + jp)) = of_int (jp + 1)"
      by (simp add: keyAt_def)
    with eq have "uint (keyAt t0 (nat (idx + jp))) = uint (of_int (jp + 1) :: byte)" by simp
    also from jp N have "\<dots> = jp + 1"
      by (intro uint_byte_of_int) simp_all
    finally show False using nokey [OF jp] by simp
  qed
  show owned: "cells t2 ! nat (ix p - 1 + j) = cells t ! nat (ix p - 1 + j)"
    if p: "ix p \<noteq> 0" and j: "0 \<le> j" "j \<le> int N" and l: "live (store h p) j" for p j
  proof -
    let ?y = "nat (ix p - 1 + j)"
    from packed_inv_key [OF inv p j] l have k: "keyAt t ?y = of_int (j + 1)" by simp
    have "cells t2 ! ?y = cells t0 ! ?y"
    proof (rule unwritten)
      fix j' assume j': "0 \<le> j'" "j' \<le> int N" "live ?S j'"
      show "?y \<noteq> nat (idx + j')"
      proof
        assume "?y = nat (idx + j')"
        from written [OF this j'] old [OF in_t [OF p j]] have "keyAt t ?y = 0"
          by (simp add: keyAt_def)
        with k nz [OF j] show False by simp
      qed
    qed
    with old [OF in_t [OF p j]] show ?thesis by simp
  qed
  let ?ix = "ix(s := idx + 1)"
  have A: "p < htop h \<and> 1 \<le> ?ix p \<and> ?ix p + int N \<le> int (length (cells t2))"
    if p: "?ix p \<noteq> 0" for p
  proof -
    show "p < htop h \<and> 1 \<le> (ix(s := idx + 1)) p
        \<and> (ix(s := idx + 1)) p + int N \<le> int (length (cells t2))"
    proof (cases "p = s")
      case True
      with s idx fits wk(1) show ?thesis by simp
    next
      case False
      with p have "ix p \<noteq> 0" by simp
      from packed_inv_base [OF inv this] False g wk(1) show ?thesis
        by (auto simp: grown_def)
    qed
  qed
  have B: "(keyAt t2 (nat (?ix p - 1 + j)) = of_int (j + 1)) = live (store h p) j"
    if p: "?ix p \<noteq> 0" and j: "0 \<le> j" "j \<le> int N" for p j
  proof -
    show "(keyAt t2 (nat ((ix(s := idx + 1)) p - 1 + j)) = of_int (j + 1)) = live (store h p) j"
    proof (cases "p = s")
      case True
      show ?thesis
      proof (cases "live ?S j")
        case True
        with wk(4) [OF j] \<open>p = s\<close> show ?thesis by (simp add: keyAt_def)
      next
        case False
        have "cells t2 ! nat (idx + j) = cells t0 ! nat (idx + j)"
        proof (rule unwritten)
          fix j' assume j': "0 \<le> j'" "j' \<le> int N" "live ?S j'"
          with False have "j' \<noteq> j" by auto
          with idx j j' show "nat (idx + j) \<noteq> nat (idx + j')" by simp
        qed
        moreover have "keyAt t0 (nat (idx + j)) \<noteq> of_int (j + 1)"
        proof
          assume "keyAt t0 (nat (idx + j)) = of_int (j + 1)"
          then have "uint (keyAt t0 (nat (idx + j))) = uint (of_int (j + 1) :: byte)" by simp
          also from j N have "\<dots> = j + 1"
            by (intro uint_byte_of_int) simp_all
          finally show False using nokey [OF j] by simp
        qed
        ultimately show ?thesis using False \<open>p = s\<close> by (simp add: keyAt_def)
      qed
    next
      case False
      with p have p': "ix p \<noteq> 0" by simp
      let ?y = "nat (ix p - 1 + j)"
      note k = packed_inv_key [OF inv p' j]
      show ?thesis
      proof (cases "\<exists>j'. 0 \<le> j' \<and> j' \<le> int N \<and> live ?S j' \<and> ?y = nat (idx + j')")
        case True
        then obtain j' where j': "0 \<le> j'" "j' \<le> int N" "live ?S j'" and y: "?y = nat (idx + j')"
          by blast
        from written [OF y j'] old [OF in_t [OF p' j]] have "keyAt t ?y = 0"
          by (simp add: keyAt_def)
        with k nz [OF j] have nl: "\<not> live (store h p) j" by auto
        from wk(4) [OF j'(1,2,3)] y have k2: "keyAt t2 ?y = of_int (j' + 1)"
          by (simp add: keyAt_def)
        have "(of_int (j' + 1) :: byte) \<noteq> of_int (j + 1)"
        proof
          assume "(of_int (j' + 1) :: byte) = of_int (j + 1)"
          from byte_of_int_inj [OF this] j j' N have "j' = j" by simp
          with y packed_inv_base [OF inv p'] idx j have "ix p = idx + 1" by linarith
          with other_base [OF p'] show False by simp
        qed
        with k2 nl False show ?thesis by simp
      next
        case F: False
        then have "cells t2 ! ?y = cells t0 ! ?y"
          by (intro unwritten) blast
        with old [OF in_t [OF p' j]] k False show ?thesis by (simp add: keyAt_def)
      qed
    qed
  qed
  have C: "a = b" if a: "?ix a \<noteq> 0" and eq: "?ix a = ?ix b" for a b
  proof -
    show "a = b"
    proof (cases "a = s")
      case True
      show ?thesis
      proof (rule ccontr)
        assume "a \<noteq> b"
        with True eq have "ix b = idx + 1" by simp
        moreover from this idx have "ix b \<noteq> 0" by simp
        ultimately show False using other_base by blast
      qed
    next
      case False
      with a have a': "ix a \<noteq> 0" by simp
      show ?thesis
      proof (cases "b = s")
        case True
        with False eq have "ix a = idx + 1" by simp
        with other_base [OF a'] show ?thesis by simp
      next
        case F: False
        with False eq have "ix a = ix b" by simp
        from packed_inv_inj [OF inv a' this] show ?thesis .
      qed
    qed
  qed
  show "packed_inv h N t2 ?ix"
    unfolding packed_inv_def using A B C by blast
qed

text \<open>A placed node is finished when every child slot's value is the base of the placed
  child, as the 24 bits of a cell hold it.\<close>

definition finished :: "heap \<Rightarrow> nat \<Rightarrow> packedTable \<Rightarrow> (addr \<Rightarrow> int) \<Rightarrow> addr \<Rightarrow> bool" where
  "finished h N t ix s \<longleftrightarrow>
     (\<forall>j c. 0 < j \<longrightarrow> j \<le> int N \<longrightarrow> children (store h s) ! nat (j - 1) = Some c \<longrightarrow>
        ix c \<noteq> 0 \<and> drop_bit 8 (cells t ! nat (ix s - 1 + j)) = take_bit 24 (of_int (ix c - 1)))"

lemma finished_preserved:
  assumes fin: "finished h N t ix p" and p: "ix p \<noteq> 0"
    and mono: "\<And>q. ix q \<noteq> 0 \<Longrightarrow> ix' q = ix q"
    and same: "\<And>j. 0 \<le> j \<Longrightarrow> j \<le> int N \<Longrightarrow> live (store h p) j \<Longrightarrow>
        cells t' ! nat (ix p - 1 + j) = cells t ! nat (ix p - 1 + j)"
  shows "finished h N t' ix' p"
  unfolding finished_def
proof (intro allI impI)
  fix j c assume j: "0 < j" "j \<le> int N" and c: "children (store h p) ! nat (j - 1) = Some c"
  from fin j c have ixc: "ix c \<noteq> 0"
    and v: "drop_bit 8 (cells t ! nat (ix p - 1 + j)) = take_bit 24 (of_int (ix c - 1))"
    by (auto simp: finished_def)
  from j c have "live (store h p) j" by (simp add: live_def)
  with same [of j] j have "cells t' ! nat (ix p - 1 + j) = cells t ! nat (ix p - 1 + j)" by simp
  with v mono [OF ixc] mono [OF p] ixc
  show "ix' c \<noteq> 0 \<and> drop_bit 8 (cells t' ! nat (ix' p - 1 + j)) = take_bit 24 (of_int (ix' c - 1))"
    by simp
qed

text \<open>What a call \<open>insertNode(s, indexes)\<close> that returns \<open>idx\<close> has done.\<close>

definition pack_post :: "heap \<Rightarrow> nat \<Rightarrow> packedTable \<Rightarrow> (addr \<Rightarrow> int) \<Rightarrow> addr
    \<Rightarrow> int \<Rightarrow> packedTable \<Rightarrow> (addr \<Rightarrow> int) \<Rightarrow> bool" where
  "pack_post h N t ix s idx t' ix' \<longleftrightarrow>
     packed_inv h N t' ix' \<and> ix' s = idx + 1 \<and> tbl_cm t' = tbl_cm t
     \<and> (\<forall>p. ix p \<noteq> 0 \<longrightarrow> ix' p = ix p)
     \<and> (\<forall>p. ix' p \<noteq> 0 \<longrightarrow> ix p = 0 \<longrightarrow> finished h N t' ix' p)
     \<and> (\<forall>p j. ix p \<noteq> 0 \<longrightarrow> 0 \<le> j \<longrightarrow> j \<le> int N \<longrightarrow> live (store h p) j \<longrightarrow>
           cells t' ! nat (ix p - 1 + j) = cells t ! nat (ix p - 1 + j))
     \<and> 0 \<le> idx"

lemma pack_postD:
  assumes "pack_post h N t ix s idx t' ix'"
  shows "packed_inv h N t' ix'" and "ix' s = idx + 1" and "tbl_cm t' = tbl_cm t"
    and "\<And>p. ix p \<noteq> 0 \<Longrightarrow> ix' p = ix p"
    and "\<And>p. ix' p \<noteq> 0 \<Longrightarrow> ix p = 0 \<Longrightarrow> finished h N t' ix' p"
    and "\<And>p j. ix p \<noteq> 0 \<Longrightarrow> 0 \<le> j \<Longrightarrow> j \<le> int N \<Longrightarrow> live (store h p) j \<Longrightarrow>
           cells t' ! nat (ix p - 1 + j) = cells t ! nat (ix p - 1 + j)"
    and "0 \<le> idx"
  using assms unfolding pack_post_def by blast+

text \<open>Writing a value keeps the invariant.\<close>

lemma packed_inv_same_keys:
  assumes "packed_inv h N t ix" and "length (cells t') = length (cells t)"
    and "\<And>y. keyAt t' y = keyAt t y"
  shows "packed_inv h N t' ix"
  using assms by (simp add: packed_inv_def)

lemma SetValue_keyAt:
  assumes "SetValue t x v = Done t'"
  shows "keyAt t' y = keyAt t y"
proof (cases "y = nat x")
  case True
  with SetValue_effect(5) [OF assms] show ?thesis by (simp add: keyAt_def)
next
  case False
  with SetValue_effect(7) [OF assms] show ?thesis by (simp add: keyAt_def)
qed

text \<open>The second loop of \<open>insertNode\<close>, from child slot \<open>i\<close> on.\<close>

definition children_post :: "heap \<Rightarrow> nat \<Rightarrow> addr \<Rightarrow> int \<Rightarrow> int \<Rightarrow> packedTable \<Rightarrow> (addr \<Rightarrow> int)
    \<Rightarrow> packedTable \<Rightarrow> (addr \<Rightarrow> int) \<Rightarrow> bool" where
  "children_post h N s idx i t ix t' ix' \<longleftrightarrow>
     packed_inv h N t' ix' \<and> tbl_cm t' = tbl_cm t
     \<and> (\<forall>p. ix p \<noteq> 0 \<longrightarrow> ix' p = ix p)
     \<and> (\<forall>p. ix' p \<noteq> 0 \<longrightarrow> ix p = 0 \<longrightarrow> finished h N t' ix' p)
     \<and> (\<forall>p j. ix p \<noteq> 0 \<longrightarrow> p \<noteq> s \<longrightarrow> 0 \<le> j \<longrightarrow> j \<le> int N \<longrightarrow> live (store h p) j \<longrightarrow>
           cells t' ! nat (ix p - 1 + j) = cells t ! nat (ix p - 1 + j))
     \<and> (\<forall>j. 0 \<le> j \<longrightarrow> j \<le> i \<longrightarrow> live (store h s) j \<longrightarrow>
           cells t' ! nat (idx + j) = cells t ! nat (idx + j))
     \<and> (\<forall>j c. i < j \<longrightarrow> j \<le> int N \<longrightarrow> children (store h s) ! nat (j - 1) = Some c \<longrightarrow>
           ix' c \<noteq> 0 \<and> drop_bit 8 (cells t' ! nat (idx + j)) = take_bit 24 (of_int (ix' c - 1)))"

lemma children_postD:
  assumes "children_post h N s idx i t ix t' ix'"
  shows "packed_inv h N t' ix'" and "tbl_cm t' = tbl_cm t"
    and "\<And>p. ix p \<noteq> 0 \<Longrightarrow> ix' p = ix p"
    and "\<And>p. ix' p \<noteq> 0 \<Longrightarrow> ix p = 0 \<Longrightarrow> finished h N t' ix' p"
    and "\<And>p j. ix p \<noteq> 0 \<Longrightarrow> p \<noteq> s \<Longrightarrow> 0 \<le> j \<Longrightarrow> j \<le> int N \<Longrightarrow> live (store h p) j \<Longrightarrow>
           cells t' ! nat (ix p - 1 + j) = cells t ! nat (ix p - 1 + j)"
    and "\<And>j. 0 \<le> j \<Longrightarrow> j \<le> i \<Longrightarrow> live (store h s) j \<Longrightarrow>
           cells t' ! nat (idx + j) = cells t ! nat (idx + j)"
    and "\<And>j c. i < j \<Longrightarrow> j \<le> int N \<Longrightarrow> children (store h s) ! nat (j - 1) = Some c \<Longrightarrow>
           ix' c \<noteq> 0 \<and> drop_bit 8 (cells t' ! nat (idx + j)) = take_bit 24 (of_int (ix' c - 1))"
  using assms unfolding children_post_def by blast+

lemma children_postI:
  assumes "packed_inv h N t' ix'" and "tbl_cm t' = tbl_cm t"
    and "\<And>p. ix p \<noteq> 0 \<Longrightarrow> ix' p = ix p"
    and "\<And>p. ix' p \<noteq> 0 \<Longrightarrow> ix p = 0 \<Longrightarrow> finished h N t' ix' p"
    and "\<And>p j. ix p \<noteq> 0 \<Longrightarrow> p \<noteq> s \<Longrightarrow> 0 \<le> j \<Longrightarrow> j \<le> int N \<Longrightarrow> live (store h p) j \<Longrightarrow>
           cells t' ! nat (ix p - 1 + j) = cells t ! nat (ix p - 1 + j)"
    and "\<And>j. 0 \<le> j \<Longrightarrow> j \<le> i \<Longrightarrow> live (store h s) j \<Longrightarrow>
           cells t' ! nat (idx + j) = cells t ! nat (idx + j)"
    and "\<And>j c. i < j \<Longrightarrow> j \<le> int N \<Longrightarrow> children (store h s) ! nat (j - 1) = Some c \<Longrightarrow>
           ix' c \<noteq> 0 \<and> drop_bit 8 (cells t' ! nat (idx + j)) = take_bit 24 (of_int (ix' c - 1))"
  shows "children_post h N s idx i t ix t' ix'"
  unfolding children_post_def using assms by blast

lemma placeChildren_post:
  assumes rec: "\<And>c t ix ci t' ix'. c < htop h \<Longrightarrow> packed_inv h N t ix \<Longrightarrow>
        rec c t ix = Done (ci, t', ix') \<Longrightarrow> pack_post h N t ix c ci t' ix'"
    and ok: "arena_ok N h" and N: "N \<le> 254" and s: "s < htop h"
  shows "placeChildren rec chs idx i t ix = Done (t', ix') \<Longrightarrow>
     chs = drop (nat i) (children (store h s)) \<Longrightarrow> 0 \<le> i \<Longrightarrow>
     packed_inv h N t ix \<Longrightarrow> ix s = idx + 1 \<Longrightarrow> 0 \<le> idx \<Longrightarrow>
     children_post h N s idx i t ix t' ix'"
proof (induction chs arbitrary: i t ix)
  case Nil
  from ok s have len: "length (children (store h s)) = N" by (simp add: arena_ok_def)
  from Nil.prems(2,3) len have "int N \<le> i" by simp
  moreover from Nil.prems(1) have "t' = t" "ix' = ix" by simp_all
  ultimately show ?case using Nil.prems(4) by (intro children_postI) simp_all
next
  case (Cons ch chs)
  let ?S = "store h s"
  from ok s have len: "length (children ?S) = N" by (simp add: arena_ok_def)
  note i = \<open>0 \<le> i\<close>
  note split = Cons.prems(2) [symmetric]
  have iN: "nat i < N"
  proof (rule ccontr)
    assume "\<not> nat i < N"
    with len have "drop (nat i) (children ?S) = []" by simp
    with split show False by simp
  qed
  from split have ch: "children ?S ! nat i = ch" by (rule nth_via_drop)
  from split have "chs = tl (drop (nat i) (children ?S))" by simp
  also have "\<dots> = drop (Suc (nat i)) (children ?S)" by (simp add: drop_Suc tl_drop)
  also from i have "Suc (nat i) = nat (i + 1)" by simp
  finally have chs: "chs = drop (nat (i + 1)) (children ?S)" .
  have i1: "0 \<le> i + 1" using i by simp
  note inv = \<open>packed_inv h N t ix\<close>
  note ixs = \<open>ix s = idx + 1\<close>
  note idx0 = \<open>0 \<le> idx\<close>
  show ?case
  proof (cases ch)
    case None
    with Cons.prems(1) have run: "placeChildren rec chs idx (i + 1) t ix = Done (t', ix')" by simp
    note IH = children_postD [OF Cons.IH [OF run chs i1 inv ixs idx0]]
    have slot: "ix' c \<noteq> 0 \<and> drop_bit 8 (cells t' ! nat (idx + j)) = take_bit 24 (of_int (ix' c - 1))"
      if "i < j" "j \<le> int N" "children ?S ! nat (j - 1) = Some c" for j c
    proof (cases "j = i + 1")
      case True
      with that(3) ch None show ?thesis by simp
    next
      case False
      with that have "i + 1 < j" by simp
      from IH(7) [OF this that(2,3)] show ?thesis .
    qed
    show ?thesis
    proof (rule children_postI)
      fix j assume "0 \<le> j" "j \<le> i" "live ?S j"
      then show "cells t' ! nat (idx + j) = cells t ! nat (idx + j)"
        by (intro IH(6)) simp_all
    qed (fact IH(1) IH(2) | rule IH(3) IH(4) IH(5) slot; assumption)+
  next
    case (Some c)
    from ch Some iN len nth_mem [of "nat i" "children ?S"]
    have "Some c \<in> set (children ?S)" by simp
    with ok s have c: "c < htop h" by (simp add: arena_ok_def)
    from Cons.prems(1) Some obtain ci t1 ix1 t2 where
      r: "rec c t ix = Done (ci, t1, ix1)"
      and sv: "SetValue t1 (idx + i + 1) (of_int ci) = Done t2"
      and run: "placeChildren rec chs idx (i + 1) t2 ix1 = Done (t', ix')"
      by (auto split: go.splits)
    note post = pack_postD [OF rec [OF c inv r]]
    note inv1 = post(1)
    from post(4) [of s] ixs idx0 have ixs1: "ix1 s = idx + 1" by simp
    have inv2: "packed_inv h N t2 ix1"
      using inv1 SetValue_effect(3) [OF sv] SetValue_keyAt [OF sv]
      by (rule packed_inv_same_keys)
    note IH = children_postD [OF Cons.IH [OF run chs i1 inv2 ixs1 idx0]]
    from ch Some i have lv: "live ?S (i + 1)" by (simp add: live_def)
    have iN': "i + 1 \<le> int N" using iN i by simp
    from ixs1 idx0 have s1: "ix1 s \<noteq> 0" by simp
    have cell: "nat (idx + i + 1) = nat (ix1 s - 1 + (i + 1))" using ixs1 by (simp add: add.assoc)
    have other: "cells t2 ! nat (ix1 p - 1 + j) = cells t1 ! nat (ix1 p - 1 + j)"
      if "ix1 p \<noteq> 0" "p \<noteq> s" "0 \<le> j" "j \<le> int N" "live (store h p) j" for p j
    proof -
      have "nat (ix1 p - 1 + j) \<noteq> nat (idx + i + 1)"
      proof
        assume "nat (ix1 p - 1 + j) = nat (idx + i + 1)"
        with cell have "nat (ix1 p - 1 + j) = nat (ix1 s - 1 + (i + 1))" by simp
        from owner_unique [OF inv1 N that(1) s1 that(3,4) i1 iN' that(5) lv this] that(2)
        show False by simp
      qed
      with SetValue_effect(7) [OF sv] show ?thesis by simp
    qed
    have mono: "ix' p = ix p" if "ix p \<noteq> 0" for p
      using that post(4) [OF that] IH(3) [of p] by simp
    have fin: "finished h N t' ix' p" if p': "ix' p \<noteq> 0" and p0: "ix p = 0" for p
    proof (cases "ix1 p = 0")
      case True
      from IH(4) [OF p' True] show ?thesis .
    next
      case False
      from p0 ixs idx0 have ps: "p \<noteq> s" by auto
      from post(5) [OF False p0] have f1: "finished h N t1 ix1 p" .
      have f2: "finished h N t2 ix1 p"
        using f1 False
      proof (rule finished_preserved)
        fix j assume "0 \<le> j" "j \<le> int N" "live (store h p) j"
        with other [OF False ps] show "cells t2 ! nat (ix1 p - 1 + j) = cells t1 ! nat (ix1 p - 1 + j)" .
      qed simp
      show ?thesis
        using f2 False
      proof (rule finished_preserved)
        fix q assume "ix1 q \<noteq> 0"
        then show "ix' q = ix1 q" by (rule IH(3))
      next
        fix j assume "0 \<le> j" "j \<le> int N" "live (store h p) j"
        with False ps show "cells t' ! nat (ix1 p - 1 + j) = cells t2 ! nat (ix1 p - 1 + j)"
          by (rule IH(5))
      qed
    qed
    have others: "cells t' ! nat (ix p - 1 + j) = cells t ! nat (ix p - 1 + j)"
      if p: "ix p \<noteq> 0" "p \<noteq> s" and j: "0 \<le> j" "j \<le> int N" "live (store h p) j" for p j
    proof -
      from post(4) [OF p(1)] p(1) have e: "ix1 p = ix p" and p1: "ix1 p \<noteq> 0" by simp_all
      from p1 p(2) j have "cells t' ! nat (ix1 p - 1 + j) = cells t2 ! nat (ix1 p - 1 + j)"
        by (rule IH(5))
      also from other [OF p1 p(2) j] have "\<dots> = cells t1 ! nat (ix1 p - 1 + j)" .
      also from post(6) [OF p(1) j] e have "\<dots> = cells t ! nat (ix1 p - 1 + j)" by simp
      finally show ?thesis by (simp add: e)
    qed
    have before: "cells t' ! nat (idx + j) = cells t ! nat (idx + j)"
      if j: "0 \<le> j" "j \<le> i" "live ?S j" for j
    proof -
      from j have "cells t' ! nat (idx + j) = cells t2 ! nat (idx + j)"
        by (intro IH(6)) simp_all
      also from j idx0 have "nat (idx + j) \<noteq> nat (idx + i + 1)" by simp
      with SetValue_effect(7) [OF sv] have "cells t2 ! nat (idx + j) = cells t1 ! nat (idx + j)"
        by simp
      also from post(6) [of s j] ixs idx0 j iN' have "\<dots> = cells t ! nat (idx + j)" by simp
      finally show ?thesis .
    qed
    have slot: "ix' c' \<noteq> 0 \<and> drop_bit 8 (cells t' ! nat (idx + j)) = take_bit 24 (of_int (ix' c' - 1))"
      if j: "i < j" "j \<le> int N" "children ?S ! nat (j - 1) = Some c'" for j c'
    proof (cases "j = i + 1")
      case True
      with j(3) ch Some have cc: "c' = c" by simp
      from post(2,7) have c1: "ix1 c \<noteq> 0" "ix1 c = ci + 1"
        by auto
      with IH(3) [of c] have c': "ix' c = ci + 1" by simp
      from lv i1 have "cells t' ! nat (idx + (i + 1)) = cells t2 ! nat (idx + (i + 1))"
        by (intro IH(6)) simp_all
      then have "drop_bit 8 (cells t' ! nat (idx + (i + 1))) = drop_bit 8 (cells t2 ! nat (idx + i + 1))"
        by (simp add: add.assoc)
      also from SetValue_effect(6) [OF sv] have "\<dots> = take_bit 24 (of_int ci)" .
      finally show ?thesis using True cc c' c1 by simp
    next
      case False
      with j have "i + 1 < j" by simp
      from IH(7) [OF this j(2,3)] show ?thesis .
    qed
    from IH(2) SetValue_effect(4) [OF sv] post(3) have cm: "tbl_cm t' = tbl_cm t" by simp
    show ?thesis
      by (rule children_postI) (fact IH(1) cm | rule mono fin others before slot; assumption)+
  qed
qed

lemma pack_postI:
  assumes "packed_inv h N t' ix'" and "ix' s = idx + 1" and "tbl_cm t' = tbl_cm t"
    and "\<And>p. ix p \<noteq> 0 \<Longrightarrow> ix' p = ix p"
    and "\<And>p. ix' p \<noteq> 0 \<Longrightarrow> ix p = 0 \<Longrightarrow> finished h N t' ix' p"
    and "\<And>p j. ix p \<noteq> 0 \<Longrightarrow> 0 \<le> j \<Longrightarrow> j \<le> int N \<Longrightarrow> live (store h p) j \<Longrightarrow>
           cells t' ! nat (ix p - 1 + j) = cells t ! nat (ix p - 1 + j)"
    and "0 \<le> idx"
  shows "pack_post h N t ix s idx t' ix'"
  unfolding pack_post_def using assms by blast

text \<open>\<open>insertNode\<close> keeps the invariant, finishes every node it places and leaves the
  live cells of the nodes placed before as they were.\<close>

lemma insertNode_post:
  assumes ok: "arena_ok N h" and N: "N \<le> 254" and alive: "all_alive h N"
  shows "s < htop h \<Longrightarrow> packed_inv h N t ix \<Longrightarrow> insertNode h k s t ix = Done (idx, t', ix')
     \<Longrightarrow> pack_post h N t ix s idx t' ix'"
proof (induction k arbitrary: s t ix idx t' ix')
  case 0
  then show ?case by simp
next
  case (Suc k)
  note s = Suc.prems(1) and inv = Suc.prems(2) and run = Suc.prems(3)
  let ?S = "store h s"
  show ?case
  proof (cases "ix s = 0")
    case False
    with run have e: "idx = ix s - 1" "t' = t" "ix' = ix" by auto
    from packed_inv_base [OF inv False] have "1 \<le> ix s" by simp
    with e inv show ?thesis by (intro pack_postI) simp_all
  next
    case True
    with run obtain t0 t1 t2 where
      f: "findIndex t ?S = Done (idx, t0)"
      and w: "(if isWord ?S then SetKey t0 idx 1 else Done t0) = Done t1"
      and ck: "setChildKeys (children ?S) idx 0 t1 = Done t2"
      and pc: "placeChildren (insertNode h k) (children ?S) idx 0 t2 (ix(s := idx + 1)) = Done (t', ix')"
      by (auto split: go.splits prod.splits)
    let ?ix = "ix(s := idx + 1)"
    have pa: "\<forall>p. ix p \<noteq> 0 \<longrightarrow> (\<exists>j. 0 \<le> j \<and> j \<le> int N \<and> live (store h p) j)"
      using packed_inv_base [OF inv] alive by (simp add: all_alive_def)
    note pn = place_node [OF inv ok N pa s True f w ck]
    from findIndex_placeable [OF f] have idx0: "0 \<le> idx" by (simp add: placeable_def)
    have "children_post h N s idx 0 t2 ?ix t' ix'"
    proof (rule placeChildren_post [where rec = "insertNode h k", OF _ ok N s pc])
      fix c t ix ci t' ix'
      assume "c < htop h" "packed_inv h N t ix" "insertNode h k c t ix = Done (ci, t', ix')"
      then show "pack_post h N t ix c ci t' ix'" by (rule Suc.IH)
    qed (simp_all add: pn(1) idx0)
    note cp = children_postD [OF this]
    from idx0 have s1: "?ix s \<noteq> 0" by simp
    show ?thesis
    proof (rule pack_postI)
      show "packed_inv h N t' ix'" by (fact cp(1))
      from cp(3) [OF s1] show "ix' s = idx + 1" by simp
      from cp(2) pn(3) show "tbl_cm t' = tbl_cm t" by simp
      show "0 \<le> idx" by (fact idx0)
    next
      fix p assume p: "ix p \<noteq> 0"
      with True have "p \<noteq> s" by auto
      with p cp(3) [of p] show "ix' p = ix p" by simp
    next
      fix p assume p: "ix' p \<noteq> 0" "ix p = 0"
      show "finished h N t' ix' p"
      proof (cases "p = s")
        case False
        with p(2) have "?ix p = 0" by simp
        with p(1) show ?thesis by (rule cp(4))
      next
        case ps: True
        show ?thesis
          unfolding finished_def
        proof (intro allI impI)
          fix j c assume j: "0 < j" "j \<le> int N" "children (store h p) ! nat (j - 1) = Some c"
          from cp(7) [OF j(1,2)] j(3) ps cp(3) [OF s1]
          show "ix' c \<noteq> 0 \<and> drop_bit 8 (cells t' ! nat (ix' p - 1 + j)) = take_bit 24 (of_int (ix' c - 1))"
            by simp
        qed
      qed
    next
      fix p j assume p: "ix p \<noteq> 0" and j: "0 \<le> j" "j \<le> int N" "live (store h p) j"
      from p True have ps: "p \<noteq> s" by auto
      with p have "?ix p \<noteq> 0" by simp
      from cp(5) [OF this ps j] ps pn(2) [OF p j]
      show "cells t' ! nat (ix p - 1 + j) = cells t ! nat (ix p - 1 + j)" by simp
    qed
  qed
qed

section \<open>Packed nodes answer as the nodes they were made from\<close>

lemma uint_value:
  "0 \<le> x \<Longrightarrow> x < 16777216 \<Longrightarrow> uint (take_bit 24 (of_int x :: 32 word)) = x"
  by (simp add: unsigned_take_bit_eq uint_word_of_int_eq take_bit_int_eq_self)

text \<open>The finished table: every placed node is finished and every base fits the 24 bits
  of a value.\<close>

definition represents :: "heap \<Rightarrow> nat \<Rightarrow> packedTable \<Rightarrow> (addr \<Rightarrow> int) \<Rightarrow> bool" where
  "represents h N t ix \<longleftrightarrow> packed_inv h N t ix \<and> (\<forall>p. ix p \<noteq> 0 \<longrightarrow> finished h N t ix p)
     \<and> length (cells t) \<le> 16777216"

lemma indexAt_placed:
  assumes inv: "packed_inv h N t ix" and q: "ix q \<noteq> 0" and j: "0 \<le> j" "j \<le> int N"
  shows "indexAt t (ix q - 1) j =
     (if live (store h q) j then Done (uint (drop_bit 8 (cells t ! nat (ix q - 1 + j))))
      else Done (- 1))"
proof -
  let ?k = "ix q - 1 + j"
  from packed_inv_base [OF inv q] j have k: "0 \<le> ?k" "?k < int (length (cells t))" by simp_all
  then have key: "Key t ?k = Done (keyAt t (nat ?k))" by (simp add: Key_Done)
  from k have val: "Value t ?k = Done (drop_bit 8 (cells t ! nat ?k))" by (simp add: Value_def)
  from packed_inv_key [OF inv q j] k key val show ?thesis
    by (simp add: indexAt_def Let_def)
qed

text \<open>A value of the naive trie and the packed value that stands for it: the nil
  interface and the sentinel, or a node and its base in the table.\<close>

definition same_node :: "CharMap \<Rightarrow> packedTable \<Rightarrow> (addr \<Rightarrow> int) \<Rightarrow> TrieNode \<Rightarrow> TrieNode \<Rightarrow> bool" where
  "same_node cm t ix a b \<longleftrightarrow>
     (a = NilTrieNode \<and> (\<exists>p. b = PackedVal p \<and> pn_idx p = - 1))
     \<or> (\<exists>q. ix q \<noteq> 0 \<and> a = SimplePtr (Some \<lparr>sn_s = Some q, sn_cm = cm\<rparr>)
            \<and> b = PackedVal \<lparr>pn_tbl = Some t, pn_idx = ix q - 1\<rparr>)"

text \<open>The packed answer to a query the naive trie answers is the same answer, and where
  the naive trie panics the packed one says no.\<close>

definition panic_as_false :: "bool go \<Rightarrow> bool go" where
  "panic_as_false r = (case r of Done x \<Rightarrow> Done x | Panic \<Rightarrow> Done False | OutOfFuel \<Rightarrow> OutOfFuel)"

lemma IsWord_same:
  assumes rep: "represents h N t ix" and sn: "same_node cm t ix a b"
  shows "IsWord h b = panic_as_false (IsWord h a)"
    and "IsPrefix h b = panic_as_false (IsPrefix h a)"
proof -
  from rep have inv: "packed_inv h N t ix" by (simp add: represents_def)
  from sn consider (nil) p where "a = NilTrieNode" "b = PackedVal p" "pn_idx p = - 1"
    | (node) q where "ix q \<noteq> 0" "a = SimplePtr (Some \<lparr>sn_s = Some q, sn_cm = cm\<rparr>)"
        "b = PackedVal \<lparr>pn_tbl = Some t, pn_idx = ix q - 1\<rparr>"
    unfolding same_node_def by blast
  then have "IsWord h b = panic_as_false (IsWord h a)
    \<and> IsPrefix h b = panic_as_false (IsPrefix h a)"
  proof cases
    case nil
    then show ?thesis
      by (simp add: IsWord_def IsPrefix_def packed_IsWord_def packed_IsPrefix_def panic_as_false_def)
  next
    case node
    from packed_inv_base [OF inv node(1)] have b: "ix q - 1 \<noteq> - 1" by simp
    have "uint w \<noteq> - 1" for w :: "32 word"
    proof -
      have "0 \<le> uint w" by simp
      then show ?thesis by linarith
    qed
    with indexAt_placed [OF inv node(1), of 0] b node show ?thesis
      by (simp add: IsWord_def IsPrefix_def packed_IsWord_def packed_IsPrefix_def panic_as_false_def
          simple_IsWord_def simple_IsPrefix_def live_def)
  qed
  then show "IsWord h b = panic_as_false (IsWord h a)"
    and "IsPrefix h b = panic_as_false (IsPrefix h a)" by simp_all
qed

lemma Follow_same:
  assumes rep: "represents h N t ix" and ok: "arena_ok N h" and cm: "tbl_cm t = cm"
    and range: "\<And>c. 0 \<le> cm c \<and> cm c \<le> int N"
    and sn: "same_node cm t ix a b"
  shows "\<exists>b'. Follow h b c = Done b'
     \<and> (case Follow h a c of Done a' \<Rightarrow> same_node cm t ix a' b'
         | Panic \<Rightarrow> same_node cm t ix NilTrieNode b'
         | OutOfFuel \<Rightarrow> False)"
proof -
  from rep have inv: "packed_inv h N t ix" and fin: "\<And>p. ix p \<noteq> 0 \<Longrightarrow> finished h N t ix p"
    and size: "length (cells t) \<le> 16777216"
    by (simp_all add: represents_def)
  from sn consider (nil) p where "a = NilTrieNode" "b = PackedVal p" "pn_idx p = - 1"
    | (node) q where "ix q \<noteq> 0" "a = SimplePtr (Some \<lparr>sn_s = Some q, sn_cm = cm\<rparr>)"
        "b = PackedVal \<lparr>pn_tbl = Some t, pn_idx = ix q - 1\<rparr>"
    unfolding same_node_def by blast
  then show ?thesis
  proof cases
    case nil
    then show ?thesis
      by (simp add: Follow_def packed_Follow_def badNode_def same_node_def)
  next
    case node
    note base = packed_inv_base [OF inv node(1)]
    from base have b: "ix q - 1 \<noteq> - 1" by simp
    from ok base have len: "length (children (store h q)) = N" by (simp add: arena_ok_def)
    show ?thesis
    proof (cases "cm c = 0")
      case True
      with node b cm show ?thesis
        by (simp add: Follow_def packed_Follow_def simple_Follow_def same_node_def badNode_def)
    next
      case False
      with range [of c] have m: "0 < cm c" "cm c \<le> int N" "0 \<le> cm c" by simp_all
      note at = indexAt_placed [OF inv node(1) m(3,2)]
      show ?thesis
      proof (cases "children (store h q) ! nat (cm c - 1)")
        case None
        with m have "\<not> live (store h q) (cm c)" by (simp add: live_def)
        with at None node b cm False m len show ?thesis
          by (simp add: Follow_def packed_Follow_def simple_Follow_def same_node_def badNode_def
              Let_def)
      next
        case (Some q')
        with m have lv: "live (store h q) (cm c)" by (simp add: live_def)
        from fin [OF node(1)] m Some have q': "ix q' \<noteq> 0"
          and v: "drop_bit 8 (cells t ! nat (ix q - 1 + cm c)) = take_bit 24 (of_int (ix q' - 1))"
          by (auto simp: finished_def)
        from packed_inv_base [OF inv q'] size have "0 \<le> ix q' - 1" "ix q' - 1 < 16777216"
          by simp_all
        then have u: "uint (take_bit 24 (of_int (ix q' - 1) :: 32 word)) = ix q' - 1"
          by (rule uint_value)
        from packed_inv_base [OF inv q'] have b': "ix q' - 1 \<noteq> - 1" by simp
        have "same_node cm t ix (SimplePtr (Some \<lparr>sn_s = Some q', sn_cm = cm\<rparr>))
            (PackedVal \<lparr>pn_tbl = Some t, pn_idx = ix q' - 1\<rparr>)"
          using q' unfolding same_node_def by blast
        with at lv v u b' Some node b cm False m len show ?thesis
          by (simp add: Follow_def packed_Follow_def simple_Follow_def Let_def)
      qed
    qed
  qed
qed


lemma walk_same:
  assumes rep: "represents h N t ix" and ok: "arena_ok N h" and cm: "tbl_cm t = cm"
    and range: "\<And>c. 0 \<le> cm c \<and> cm c \<le> int N"
  shows "same_node cm t ix a b \<Longrightarrow>
     isWordAfter h b w = panic_as_false (isWordAfter h a w)
     \<and> isPrefixAfter h b w = panic_as_false (isPrefixAfter h a w)"
proof (induction w arbitrary: a b)
  case Nil
  from IsWord_same [OF rep Nil] show ?case
    by (simp add: isWordAfter_def isPrefixAfter_def)
next
  case (Cons c cs)
  from Follow_same [OF rep ok cm range Cons.prems, of c] obtain b' where
    fb: "Follow h b c = Done b'"
    and rel: "case Follow h a c of Done a' \<Rightarrow> same_node cm t ix a' b'
         | Panic \<Rightarrow> same_node cm t ix NilTrieNode b' | OutOfFuel \<Rightarrow> False"
    by blast
  show ?case
  proof (cases "Follow h a c")
    case (Done a')
    with rel have "same_node cm t ix a' b'" by simp
    from Cons.IH [OF this] fb Done show ?thesis by (simp add: after_Cons)
  next
    case Panic
    with rel have "same_node cm t ix NilTrieNode b'" by simp
    from Cons.IH [OF this] fb Panic show ?thesis
      by (simp add: after_Cons isWordAfter_nil isPrefixAfter_nil)
  next
    case OutOfFuel
    with rel show ?thesis by simp
  qed
qed

section \<open>Every node of a built trie is a word or has a child\<close>

definition alive :: "simple \<Rightarrow> bool" where
  "alive s \<longleftrightarrow> isWord s \<or> (\<exists>c \<in> set (children s). c \<noteq> None)"

lemma alive_live:
  assumes "alive s" and "length (children s) = N"
  shows "\<exists>j. 0 \<le> j \<and> j \<le> int N \<and> live s j"
proof (cases "isWord s")
  case True
  then have "0 \<le> (0::int) \<and> 0 \<le> int N \<and> live s 0" by (simp add: live_def)
  then show ?thesis by blast
next
  case False
  with assms(1) obtain i where i: "i < length (children s)" "children s ! i \<noteq> None"
    by (auto simp: alive_def in_set_conv_nth)
  with assms(2) have "0 \<le> int i + 1 \<and> int i + 1 \<le> int N \<and> live s (int i + 1)"
    by (simp add: live_def)
  then show ?thesis by blast
qed

lemma addLoop_alive:
  "addLoop cm h st w = Done h' \<Longrightarrow> p < htop h' \<Longrightarrow>
     p = st \<or> htop h \<le> p \<or> alive (store h p) \<Longrightarrow> alive (store h' p)"
proof (induction w arbitrary: h st)
  case Nil
  then show ?case by (auto simp: alive_def)
next
  case (Cons c cs)
  let ?i = "sn_cm \<lparr>sn_s = None, sn_cm = cm\<rparr> (of_nat c) - 1"
  from Cons.prems(1) have c: "\<not> 256 \<le> c"
    and i: "0 \<le> cm (of_nat c) - 1" "cm (of_nat c) - 1 < int (length (children (store h st)))"
    by (auto simp: Let_def split: if_splits)
  let ?n = "nat (cm (of_nat c) - 1)"
  from i have n: "?n < length (children (store h st))" by simp
  show ?case
  proof (cases "children (store h st) ! ?n")
    case (Some q)
    with Cons.prems(1) c i have run: "addLoop cm h q cs = Done h'"
      by (simp add: Let_def)
    from Some nth_mem [OF n] have "Some q \<in> set (children (store h st))" by simp
    then have "alive (store h st)" unfolding alive_def by blast
    with Cons.prems(3) have "p = q \<or> htop h \<le> p \<or> alive (store h p)" by auto
    with run Cons.prems(2) show ?thesis by (rule Cons.IH)
  next
    case None
    with Cons.prems(1) c i obtain q h1 where
      ns: "newSimple (cm_max cm) h = Done (q, h1)"
      and run: "addLoop cm (h1\<lparr>store := (store h1)
            (st := (store h1 st)\<lparr>children := (children (store h1 st))[?n := Some q]\<rparr>)\<rparr>) q cs
          = Done h'"
      by (auto simp: Let_def split: go.splits)
    let ?h2 = "h1\<lparr>store := (store h1)
            (st := (store h1 st)\<lparr>children := (children (store h1 st))[?n := Some q]\<rparr>)\<rparr>"
    from ns have q: "q = htop h" and top: "htop h1 = Suc (htop h)"
      and st1: "\<And>x. x \<noteq> htop h \<Longrightarrow> store h1 x = store h x"
      and new: "children (store h1 (htop h)) = replicate (nat (cm_max cm)) None"
      by (auto simp: newSimple_def split: if_splits)
    have "p = q \<or> htop ?h2 \<le> p \<or> alive (store ?h2 p)"
    proof (cases "p = st")
      case True
      show ?thesis
      proof (cases "st = htop h")
        case True
        with \<open>p = st\<close> q show ?thesis by simp
      next
        case False
        with n st1 [of st] have "Some q \<in> set (children (store ?h2 st))"
          by (simp add: set_update_memI)
        then have "alive (store ?h2 st)" by (auto simp: alive_def)
        with True show ?thesis by simp
      qed
    next
      case False
      with Cons.prems(3) consider "htop h \<le> p" | "p < htop h" "alive (store h p)" by linarith
      then show ?thesis
      proof cases
        case 1
        with q top show ?thesis by auto
      next
        case 2
        with False st1 [of p] show ?thesis by simp
      qed
    qed
    with run Cons.prems(2) show ?thesis by (rule Cons.IH)
  qed
qed

lemma AddWord_alive:
  assumes "AddWord b h w = Done (e, h')" and "sn_s b = Some 0"
    and "\<And>p. p < htop h \<Longrightarrow> p \<noteq> 0 \<Longrightarrow> alive (store h p)"
    and "p < htop h'" and "p \<noteq> 0"
  shows "alive (store h' p)"
proof (cases e)
  case (Some err)
  with assms(1) have "h' = h"
    by (auto simp: AddWord_def split: go.splits if_splits option.splits)
  with assms(3,4,5) show ?thesis by simp
next
  case None
  with assms(1,2) have run: "addLoop (sn_cm b) h 0 (runes w) = Done h'"
    by (auto simp: AddWord_def split: go.splits if_splits option.splits)
  have "p = 0 \<or> htop h \<le> p \<or> alive (store h p)"
    using assms(3) [of p] assms(5) by (cases "p < htop h") simp_all
  with run assms(4) show ?thesis by (rule addLoop_alive)
qed

lemma addWords_alive:
  "addWords b h ws = Done h' \<Longrightarrow> sn_s b = Some 0 \<Longrightarrow>
     (\<And>p. p < htop h \<Longrightarrow> p \<noteq> 0 \<Longrightarrow> alive (store h p)) \<Longrightarrow>
     p < htop h' \<Longrightarrow> p \<noteq> 0 \<Longrightarrow> alive (store h' p)"
proof (induction ws arbitrary: h)
  case Nil
  then show ?case by simp
next
  case (Cons w ws)
  from Cons.prems(1) obtain e h1 where
    a: "AddWord b h w = Done (e, h1)" and r: "addWords b h1 ws = Done h'"
    by (auto split: go.splits)
  show ?case
  proof (rule Cons.IH [OF r Cons.prems(2) _ Cons.prems(4,5)])
    fix q assume "q < htop h1" "q \<noteq> 0"
    with a Cons.prems(2,3) show "alive (store h1 q)" by (rule AddWord_alive)
  qed
qed

text \<open>Being alive is a matter of the node's behaviour.\<close>

lemma beh_one:
  "i < length (children (store h p)) \<Longrightarrow>
     (beh h p [int i] \<noteq> Dead) = (children (store h p) ! i \<noteq> None)"
  by (simp split: option.splits)

lemma alive_beh:
  assumes len: "length (children (store h p)) = N"
  shows "alive (store h p) \<longleftrightarrow> beh h p [] = Live True \<or> (\<exists>i < N. beh h p [int i] \<noteq> Dead)"
proof -
  have "(\<exists>c \<in> set (children (store h p)). c \<noteq> None) \<longleftrightarrow> (\<exists>i < N. beh h p [int i] \<noteq> Dead)"
  proof
    assume "\<exists>c \<in> set (children (store h p)). c \<noteq> None"
    then obtain i where i: "i < length (children (store h p))" "children (store h p) ! i \<noteq> None"
      by (auto simp: in_set_conv_nth)
    with beh_one [OF i(1)] len show "\<exists>i < N. beh h p [int i] \<noteq> Dead" by blast
  next
    assume "\<exists>i < N. beh h p [int i] \<noteq> Dead"
    then obtain i where i: "i < N" "beh h p [int i] \<noteq> Dead" by blast
    from i(1) len have il: "i < length (children (store h p))" by simp
    from beh_one [OF il] i(2) have "children (store h p) ! i \<noteq> None" by simp
    with nth_mem [OF il] show "\<exists>c \<in> set (children (store h p)). c \<noteq> None" by blast
  qed
  then show ?thesis by (simp add: alive_def)
qed

lemma alive_cong:
  assumes "\<And>is. beh h' p' is = beh h p is"
    and "length (children (store h' p')) = N" and "length (children (store h p)) = N"
  shows "alive (store h' p') = alive (store h p)"
  unfolding alive_beh [OF assms(2)] alive_beh [OF assms(3)] by (simp only: assms(1))

section \<open>The packed root answers as the trie that was built\<close>

lemma setChildKeys_none:
  "\<forall>c \<in> set chs. c = None \<Longrightarrow> setChildKeys chs idx i t = Done t"
  by (induction chs arbitrary: i) simp_all

lemma placeChildren_none:
  "\<forall>c \<in> set chs. c = None \<Longrightarrow> placeChildren rec chs idx i t ix = Done (t, ix)"
  by (induction chs arbitrary: i) simp_all

text \<open>Packing from the empty table. If the root is neither a word nor has a child (the
  empty trie) it is the only node placed; otherwise every node is alive.\<close>

lemma insertNode_represents:
  assumes ok: "arena_ok N h" and N: "N \<le> 254" and r: "r < htop h"
    and alive: "alive (store h r) \<longrightarrow> (\<forall>p < htop h. alive (store h p))"
    and run: "insertNode h k r \<lparr>cells = [], tbl_cm = cm\<rparr> (\<lambda>_. 0) = Done (idx, t, ix)"
    and size: "length (cells t) \<le> 16777216"
  shows "represents h N t ix" and "ix r = idx + 1" and "0 \<le> idx" and "tbl_cm t = cm"
proof -
  let ?t0 = "\<lparr>cells = [], tbl_cm = cm\<rparr>"
  let ?ix0 = "\<lambda>_::addr. 0::int"
  have inv0: "packed_inv h N ?t0 ?ix0" by (simp add: packed_inv_def)
  have "represents h N t ix \<and> ix r = idx + 1 \<and> 0 \<le> idx \<and> tbl_cm t = cm"
  proof (cases "alive (store h r)")
    case True
    have "all_alive h N"
      unfolding all_alive_def
    proof (intro allI impI)
      fix p assume p: "p < htop h"
      with alive True have "alive (store h p)" by simp
      moreover from ok p have "length (children (store h p)) = N" by (simp add: arena_ok_def)
      ultimately show "\<exists>j. 0 \<le> j \<and> j \<le> int N \<and> live (store h p) j" by (rule alive_live)
    qed
    note post = pack_postD [OF insertNode_post [OF ok N this r inv0 run]]
    have "finished h N t ix p" if "ix p \<noteq> 0" for p
      using that by (rule post(5)) simp
    with post(1) size have "represents h N t ix" by (simp add: represents_def)
    with post(2,3,7) show ?thesis by simp
  next
    case False
    then have nw: "\<not> isWord (store h r)" and none: "\<forall>c \<in> set (children (store h r)). c = None"
      by (auto simp: alive_def)
    from run obtain k' where k: "k = Suc k'" by (cases k) simp_all
    from run nw have f: "findIndex ?t0 (store h r) = Done (idx, t)" and ix: "ix = ?ix0(r := idx + 1)"
      by (auto simp: k setChildKeys_none [OF none] placeChildren_none [OF none]
          split: go.splits prod.splits)
    from nw have w: "(if isWord (store h r) then SetKey t idx 1 else Done t) = Done t" by simp
    note ck = setChildKeys_none [OF none, of idx 0 t]
    have "\<forall>p. ?ix0 p \<noteq> 0 \<longrightarrow> (\<exists>j. 0 \<le> j \<and> j \<le> int N \<and> live (store h p) j)" by simp
    note pn = place_node [OF inv0 ok N this r _ f w ck]
    from ok r have len: "length (children (store h r)) = N" by (simp add: arena_ok_def)
    have "finished h N t ix p" if "ix p \<noteq> 0" for p
    proof -
      from that ix have "p = r" by (simp split: if_splits)
      moreover have "children (store h r) ! nat (j - 1) = None" if "0 < j" "j \<le> int N" for j
        using none that len nth_mem [of "nat (j - 1)" "children (store h r)"] by simp
      ultimately show ?thesis by (simp add: finished_def)
    qed
    with pn(1) size ix have "represents h N t ix" by (simp add: represents_def)
    moreover from findIndex_placeable [OF f] have "0 \<le> idx" by (simp add: placeable_def)
    ultimately show ?thesis using pn(3) ix by simp
  qed
  then show "represents h N t ix" and "ix r = idx + 1" and "0 \<le> idx" and "tbl_cm t = cm"
    by simp_all
qed

text \<open>For a trie built by \<open>AddWord\<close> calls on a fresh builder, with a character map whose
  entries are between 0 and 254 and a packed table of at most \<open>2\<^sup>2\<^sup>4\<close> cells, the root that
  \<open>packedBuilder.Root\<close> returns answers \<open>IsWord\<close> and \<open>IsPrefix\<close> after following any byte
  string as the naive root does, and answers false where the naive root panics.\<close>

theorem packed_root_answers:
  assumes "NewSimpleBuilder cm emptyHeap = Done (b, h0)"
    and "addWords b h0 ws = Done h"
    and "packed_Root k b h = Done (PackedVal p, h')"
    and "pn_tbl p = Some t" and "length (cells t) \<le> 16777216"
    and "\<And>c. 0 \<le> cm c" and "cm_max cm \<le> 254"
  shows "isWordAfter h' (PackedVal p) w = panic_as_false (isWordAfter h (simple_Root b) w)
    \<and> isPrefixAfter h' (PackedVal p) w = panic_as_false (isPrefixAfter h (simple_Root b) w)"
proof -
  let ?N = "nat (cm_max cm)"
  note nb = NewSimpleBuilder_ok [OF assms(1)]
  from nb(2,3) have b: "b = \<lparr>sn_s = Some 0, sn_cm = cm\<rparr>" by (cases b) simp
  from addWords_ok [OF assms(2)] nb
  have ok: "arena_ok ?N h" and r0: "0 < htop h" by simp_all
  from assms(1) have "htop h0 = 1"
    by (auto simp: NewSimpleBuilder_def newSimple_def emptyHeap_def split: if_splits)
  then have "alive (store h0 q)" if "q < htop h0" "q \<noteq> 0" for q using that by simp
  with assms(2) nb(2) have others: "alive (store h q)" if "q < htop h" "q \<noteq> 0" for q
    using that by (rule addWords_alive)
  from assms(3) obtain x ct' idx ix where
    cn: "compressNode k (Some 0) h emptyCompressTable = Done (x, h', ct')"
    and fs: "fromSimple h' k \<lparr>sn_s = x, sn_cm = cm\<rparr> = Done p"
    by (auto simp: packed_Root_def compress_def b split: go.splits)
  have ct: "ct_ok h emptyCompressTable"
    by (simp add: ct_ok_def emptyCompressTable_def)
  from compressNode_correct [OF cn ok ct] r0
  have post: "compress_post ?N (Some 0) h x h' ct'" by simp
  then have ok': "arena_ok ?N h'" and top: "htop h' = htop h"
    and same: "\<And>q is. beh h' q is = beh h q is"
    and root: "\<And>is. slot_beh h' x is = slot_beh h' (Some 0) is"
    and xin: "\<And>a. x = Some a \<Longrightarrow> a < htop h'"
    by (simp_all add: compress_post_def)
  from root [of "[]"] obtain r' where x: "x = Some r'"
    by (cases x) (simp_all add: slot_beh_def)
  from xin [OF x] have r': "r' < htop h'" .
  have rb: "beh h' r' is = beh h 0 is" for "is"
    using root [of "is"] same [of 0 "is"] by (simp add: x slot_beh_def)
  from fs x assms(4) obtain idx ix where
    run: "insertNode h' k r' \<lparr>cells = [], tbl_cm = cm\<rparr> (\<lambda>_. 0) = Done (idx, t, ix)"
    and p: "p = \<lparr>pn_tbl = Some t, pn_idx = idx\<rparr>"
    by (auto simp: fromSimple_def split: go.splits)
  have len': "length (children (store h' q)) = ?N" if "q < htop h" for q
    using ok' that top by (simp add: arena_ok_def)
  have len: "length (children (store h q)) = ?N" if "q < htop h" for q
    using ok that by (simp add: arena_ok_def)
  have keep: "alive (store h' q) = alive (store h q)" if "q < htop h" for q
    using same [of q] len' [OF that] len [OF that] by (rule alive_cong)
  have rootalive: "alive (store h' r') = alive (store h 0)"
    using rb len' [of r'] len [OF r0] r' top by (intro alive_cong) simp_all
  have all: "alive (store h' r') \<longrightarrow> (\<forall>q < htop h'. alive (store h' q))"
  proof (intro impI allI)
    fix q assume a: "alive (store h' r')" and q: "q < htop h'"
    show "alive (store h' q)"
    proof (cases "q = 0")
      case True
      with a rootalive keep [OF r0] show ?thesis by simp
    next
      case False
      with others [of q] q top keep [of q] show ?thesis by simp
    qed
  qed
  from assms(7) have N: "?N \<le> 254" by simp
  note rep = insertNode_represents [OF ok' N r' all run assms(5)]
  have range: "0 \<le> cm c \<and> cm c \<le> int ?N" for c
    using assms(6) [of c] cm_max_ge [of cm c] cm_max_nonneg [of cm] by simp
  from rep(2,3) have "ix r' \<noteq> 0" and "idx = ix r' - 1" by simp_all
  then have sn: "same_node cm t ix (SimplePtr (Some \<lparr>sn_s = Some r', sn_cm = cm\<rparr>)) (PackedVal p)"
    unfolding same_node_def p by blast
  from walk_same [OF rep(1) ok' rep(4) range sn, of w] after_beh [of h' r' h 0 cm w, OF rb]
  show ?thesis by (simp add: b simple_Root_def)
qed

section \<open>Compression returns\<close>

text \<open>Every walk of \<open>n\<close> or more steps from the node leaves the trie.\<close>

definition bounded :: "heap \<Rightarrow> addr \<Rightarrow> nat \<Rightarrow> bool" where
  "bounded h a n \<longleftrightarrow> (\<forall>is. n \<le> length is \<longrightarrow> beh h a is = Dead \<or> beh h a is = Fault)"

lemma bounded_pos: "bounded h a n \<Longrightarrow> 0 < n"
  unfolding bounded_def by (cases n) (auto dest: spec [of _ "[]"])

lemma bounded_mono: "bounded h a n \<Longrightarrow> n \<le> m \<Longrightarrow> bounded h a m"
  unfolding bounded_def by auto

lemma bounded_child:
  assumes b: "bounded h a (Suc n)" and i: "i < length (children (store h a))"
    and c: "children (store h a) ! i = Some q"
  shows "bounded h q n"
  unfolding bounded_def
proof (intro allI impI)
  fix "is" :: "int list" assume "n \<le> length is"
  then have "Suc n \<le> length (int i # is)" by simp
  with b have "beh h a (int i # is) = Dead \<or> beh h a (int i # is) = Fault"
    unfolding bounded_def by blast
  with i c show "beh h q is = Dead \<or> beh h q is = Fault" by simp
qed

lemma bounded_cong: "(\<And>is. beh h' a is = beh h a is) \<Longrightarrow> bounded h' a n = bounded h a n"
  by (simp add: bounded_def)

lemma hashLoop_total:
  assumes "\<And>q hs. Some q \<in> set chs \<Longrightarrow> \<exists>r. rec q hs = Done r"
  shows "\<exists>r. hashLoop rec chs i result hs = Done r"
  using assms
proof (induction chs arbitrary: i result hs)
  case Nil
  then show ?case by simp
next
  case (Cons ch chs)
  show ?case
  proof (cases ch)
    case None
    have "\<exists>r. hashLoop rec chs (i + 1) (result * 167 + of_nat ((i + 1) * 99)) hs = Done r"
    proof (rule Cons.IH)
      fix q' hs' assume "Some q' \<in> set chs"
      then have "Some q' \<in> set (ch # chs)" by simp
      then show "\<exists>r. rec q' hs' = Done r" by (rule Cons.prems)
    qed
    with None show ?thesis by simp
  next
    case (Some q)
    with Cons.prems [of q hs] obtain hq hs1 where r: "rec q hs = Done (hq, hs1)" by auto
    have "\<exists>r. hashLoop rec chs (i + 1) (result * 167 + of_nat (i + 1) * hq) hs1 = Done r"
    proof (rule Cons.IH)
      fix q' hs' assume "Some q' \<in> set chs"
      then have "Some q' \<in> set (ch # chs)" by simp
      then show "\<exists>r. rec q' hs' = Done r" by (rule Cons.prems)
    qed
    with Some r show ?thesis by simp
  qed
qed

lemma hash_total: "bounded h a k \<Longrightarrow> \<exists>r. hash h k a hs = Done r"
proof (induction k arbitrary: a hs)
  case 0
  from bounded_pos [OF this] show ?case by simp
next
  case (Suc k)
  have "\<exists>r. hashLoop (hash h k) (children (store h a)) 0 0 hs = Done r"
  proof (rule hashLoop_total)
    fix q hs' assume "Some q \<in> set (children (store h a))"
    then obtain i where "i < length (children (store h a))" "children (store h a) ! i = Some q"
      by (auto simp: in_set_conv_nth)
    with Suc.prems have "bounded h q k" by (rule bounded_child)
    then show "\<exists>r. hash h k q hs' = Done r" by (rule Suc.IH)
  qed
  then show ?case by (auto simp: Let_def)
qed

lemma shapeLoop_total: "length xs \<le> length ys \<Longrightarrow> \<exists>b. shapeLoop xs ys = Done b"
  by (induction xs ys rule: shapeLoop.induct) auto

lemma eqLoop_total:
  assumes "length xs = length ys"
    and "\<And>i. i < length xs \<Longrightarrow> (xs ! i = None) = (ys ! i = None)"
    and "\<And>i a b. i < length xs \<Longrightarrow> xs ! i = Some a \<Longrightarrow> ys ! i = Some b \<Longrightarrow> \<exists>e. rec a b = Done e"
  shows "\<exists>e. eqLoop rec xs ys = Done e"
  using assms
proof (induction xs ys rule: list_induct2)
  case Nil
  then show ?case by auto
next
  case (Cons x xs y ys)
  have rest: "\<exists>e. eqLoop rec xs ys = Done e"
  proof (rule Cons.IH)
    fix i assume "i < length xs"
    with Cons.prems(1) [of "Suc i"] show "(xs ! i = None) = (ys ! i = None)" by simp
  next
    fix i a b assume "i < length xs" "xs ! i = Some a" "ys ! i = Some b"
    with Cons.prems(2) [of "Suc i" a b] show "\<exists>e. rec a b = Done e" by simp
  qed
  show ?case
  proof (cases x)
    case None
    with rest show ?thesis by simp
  next
    case (Some a)
    with Cons.prems(1) [of 0] obtain b where y: "y = Some b" by auto
    from Cons.prems(2) [of 0 a b] Some y obtain e where "rec a b = Done e" by auto
    with Some y rest show ?thesis by auto
  qed
qed

lemma nodesEqual_total:
  "arena_ok N h \<Longrightarrow> s < htop h \<Longrightarrow> t < htop h \<Longrightarrow> bounded h t k \<Longrightarrow>
     \<exists>e. nodesEqual h k s t = Done e"
proof (induction k arbitrary: s t)
  case 0
  from bounded_pos [OF 0(4)] show ?case by simp
next
  case (Suc k)
  let ?xs = "children (store h s)" and ?ys = "children (store h t)"
  from Suc.prems(1,2,3) have len: "length ?xs = N" "length ?ys = N"
    by (simp_all add: arena_ok_def)
  from shapeLoop_total [of ?xs ?ys] len obtain ok where sh: "shapeLoop ?xs ?ys = Done ok" by auto
  show ?case
  proof (cases "ok")
    case False
    with sh show ?thesis by auto
  next
    case True
    have "\<exists>e. eqLoop (nodesEqual h k) ?xs ?ys = Done e"
    proof (rule eqLoop_total)
      show "length ?xs = length ?ys" using len by simp
    next
      fix i assume "i < length ?xs"
      with sh True len show "(?xs ! i = None) = (?ys ! i = None)"
        by (intro shapeLoop_True) simp_all
    next
      fix i a b assume i: "i < length ?xs" and a: "?xs ! i = Some a" and b: "?ys ! i = Some b"
      from i a nth_mem [OF i] have "Some a \<in> set ?xs" by simp
      with Suc.prems(1,2) have a': "a < htop h" by (auto simp: arena_ok_def)
      from i len have i': "i < length ?ys" by simp
      from b nth_mem [OF i'] have "Some b \<in> set ?ys" by simp
      with Suc.prems(1,3) have b': "b < htop h" by (auto simp: arena_ok_def)
      from Suc.prems(4) i' b have "bounded h b k" by (rule bounded_child)
      with Suc.prems(1) a' b' show "\<exists>e. nodesEqual h k a b = Done e" by (rule Suc.IH)
    qed
    with sh True show ?thesis by auto
  qed
qed

lemma findEqual_total:
  "arena_ok N h \<Longrightarrow> (\<forall>s \<in> set ss. s < htop h) \<Longrightarrow> t < htop h \<Longrightarrow> bounded h t k \<Longrightarrow>
     \<exists>r. findEqual h k ss t = Done r"
proof (induction ss)
  case Nil
  then show ?case by simp
next
  case (Cons s ss)
  from Cons.prems have "\<exists>e. nodesEqual h k s t = Done e"
    by (intro nodesEqual_total [where N = N]) simp_all
  then obtain e where "nodesEqual h k s t = Done e" by blast
  with Cons show ?case by auto
qed

lemma ct_insertNode_total:
  assumes ok: "arena_ok N h" and ct: "ct_ok h ct" and a: "a < htop h" and b: "bounded h a k"
  shows "\<exists>r. ct_insertNode h k a ct = Done r"
proof -
  from hash_total [OF b] obtain hv hs where hash: "hash h k a (ct_hashes ct) = Done (hv, hs)"
    by fastforce
  let ?ct1 = "ct\<lparr>ct_hashes := hs\<rparr>"
  let ?ct2 = "if ct_done ?ct1 hv = None
    then ?ct1\<lparr>ct_done := (ct_done ?ct1)(hv \<mapsto> [])\<rparr> else ?ct1"
  let ?bucket = "case ct_done ?ct2 hv of None \<Rightarrow> [] | Some b \<Rightarrow> b"
  have "\<forall>s \<in> set ?bucket. s < htop h"
    using ct unfolding ct_ok_def by (auto split: if_splits option.splits)
  with ok have "\<exists>r. findEqual h k ?bucket a = Done r"
    using a b by (rule findEqual_total)
  then obtain r where fe: "findEqual h k ?bucket a = Done r" by blast
  show ?thesis
  proof (cases r)
    case None
    with hash fe show ?thesis by (simp add: ct_insertNode_def Let_def)
  next
    case (Some s)
    with hash fe show ?thesis by (simp add: ct_insertNode_def Let_def)
  qed
qed

lemma compressLoop_total:
  assumes rec_ok: "\<And>t h ct r h' ct'. rec t h ct = Done (r, h', ct') \<Longrightarrow> arena_ok N h \<Longrightarrow>
      ct_ok h ct \<Longrightarrow> (\<forall>a. t = Some a \<longrightarrow> a < htop h) \<Longrightarrow> compress_post N t h r h' ct'"
    and rec_total: "\<And>t h ct. arena_ok N h \<Longrightarrow> ct_ok h ct \<Longrightarrow>
      (\<forall>a. t = Some a \<longrightarrow> a < htop h \<and> bounded h a k) \<Longrightarrow> \<exists>r. rec t h ct = Done r"
  shows "arena_ok N h \<Longrightarrow> ct_ok h ct \<Longrightarrow> a < htop h \<Longrightarrow> bounded h a (Suc k) \<Longrightarrow>
     (\<forall>i \<in> set idxs. i < N) \<Longrightarrow> \<exists>r. compressLoop rec a idxs h ct = Done r"
proof (induction idxs arbitrary: h ct)
  case Nil
  then show ?case by simp
next
  case (Cons i idxs)
  note ok = Cons.prems(1) and ct = Cons.prems(2) and a = Cons.prems(3) and b = Cons.prems(4)
  let ?x = "children (store h a) ! i"
  from ok a have len: "length (children (store h a)) = N" by (simp add: arena_ok_def)
  from Cons.prems(5) have iN: "i < N" by simp
  have x: "\<forall>q. ?x = Some q \<longrightarrow> q < htop h \<and> bounded h q k"
  proof (intro allI impI)
    fix q assume q: "?x = Some q"
    from iN len have il: "i < length (children (store h a))" by simp
    from q nth_mem [OF il] have "Some q \<in> set (children (store h a))" by simp
    with ok a have "q < htop h" by (auto simp: arena_ok_def)
    moreover from b il q have "bounded h q k" by (rule bounded_child)
    ultimately show "q < htop h \<and> bounded h q k" by simp
  qed
  from rec_total [OF ok ct x] obtain c h1 ct1 where r: "rec ?x h ct = Done (c, h1, ct1)"
    by (metis prod_cases3)
  define h2 where "h2 = h1\<lparr>store := (store h1)
      (a := (store h1 a)\<lparr>children := (children (store h1 a))[i := c]\<rparr>)\<rparr>"
  have one: "compressLoop rec a [i] h ct = Done (h2, ct1)"
    by (simp add: r h2_def)
  have step: "arena_ok N h2 \<and> ct_ok h2 ct1 \<and> htop h2 = htop h \<and> (\<forall>p is. beh h2 p is = beh h p is)"
  proof (rule compressLoop_correct [where rec = rec and idxs = "[i]", OF _ one ok ct a])
    fix t h ct r h' ct'
    assume "rec t h ct = Done (r, h', ct')" "arena_ok N h" "ct_ok h ct"
      "\<forall>a. t = Some a \<longrightarrow> a < htop h"
    then show "compress_post N t h r h' ct'" by (rule rec_ok)
  next
    from iN show "\<forall>i \<in> set [i]. i < N" by simp
  qed
  then have "bounded h2 a (Suc k) = bounded h a (Suc k)"
    by (intro bounded_cong) simp
  with b step a Cons.prems(5) have "\<exists>r. compressLoop rec a idxs h2 ct1 = Done r"
    by (intro Cons.IH) simp_all
  then show ?case by (simp add: r h2_def)
qed

text \<open>With one more unit of budget than the longest walk, \<open>compressNode\<close> returns.\<close>

lemma compressNode_total:
  "arena_ok N h \<Longrightarrow> ct_ok h ct \<Longrightarrow> (\<forall>a. t = Some a \<longrightarrow> a < htop h \<and> bounded h a k) \<Longrightarrow>
     \<exists>r. compressNode (Suc k) t h ct = Done r"
proof (induction k arbitrary: t h ct)
  case 0
  show ?case
  proof (cases t)
    case None
    then show ?thesis by simp
  next
    case (Some a)
    with 0(3) have "bounded h a 0" by simp
    from bounded_pos [OF this] show ?thesis by simp
  qed
next
  case (Suc k)
  show ?case
  proof (cases t)
    case None
    then show ?thesis by simp
  next
    case (Some a)
    with Suc.prems(3) have a: "a < htop h" and b: "bounded h a (Suc k)" by simp_all
    note ok = Suc.prems(1) and ct = Suc.prems(2)
    from ok a have len: "length (children (store h a)) = N" by (simp add: arena_ok_def)
    let ?idxs = "[0 ..< length (children (store h a))]"
    have idxs: "\<forall>i \<in> set ?idxs. i < N" using len by simp
    have "\<exists>r. compressLoop (compressNode (Suc k)) a ?idxs h ct = Done r"
    proof (rule compressLoop_total [where rec = "compressNode (Suc k)" and k = k and N = N,
          OF _ _ ok ct a b idxs])
      fix t h ct r h' ct'
      assume "compressNode (Suc k) t h ct = Done (r, h', ct')" "arena_ok N h" "ct_ok h ct"
        "\<forall>a. t = Some a \<longrightarrow> a < htop h"
      then show "compress_post N t h r h' ct'" by (rule compressNode_correct)
    next
      fix t h ct
      assume "arena_ok N h" "ct_ok h ct" "\<forall>a. t = Some a \<longrightarrow> a < htop h \<and> bounded h a k"
      then show "\<exists>r. compressNode (Suc k) t h ct = Done r" by (rule Suc.IH)
    qed
    then obtain h1 ct1 where loop: "compressLoop (compressNode (Suc k)) a ?idxs h ct = Done (h1, ct1)"
      by fastforce
    have post: "arena_ok N h1 \<and> ct_ok h1 ct1 \<and> htop h1 = htop h \<and> (\<forall>p is. beh h1 p is = beh h p is)"
    proof (rule compressLoop_correct [where rec = "compressNode (Suc k)", OF _ loop ok ct a idxs])
      fix t h ct r h' ct'
      assume "compressNode (Suc k) t h ct = Done (r, h', ct')" "arena_ok N h" "ct_ok h ct"
        "\<forall>a. t = Some a \<longrightarrow> a < htop h"
      then show "compress_post N t h r h' ct'" by (rule compressNode_correct)
    qed
    then have "bounded h1 a (Suc k) = bounded h a (Suc k)"
      by (intro bounded_cong) simp
    with b have "bounded h1 a (Suc (Suc k))" by (auto intro: bounded_mono)
    with post a have "\<exists>r. ct_insertNode h1 (Suc (Suc k)) a ct1 = Done r"
      by (intro ct_insertNode_total [where N = N]) simp_all
    then obtain r ct2 where "ct_insertNode h1 (Suc (Suc k)) a ct1 = Done (r, ct2)" by fastforce
    with Some loop show ?thesis by simp
  qed
qed

text \<open>\<open>AddWord\<close> links a node only to a node it has just allocated, so every child has a
  larger address than its parent.\<close>

definition ordered :: "heap \<Rightarrow> bool" where
  "ordered h \<longleftrightarrow> (\<forall>p < htop h. \<forall>q. Some q \<in> set (children (store h p)) \<longrightarrow> p < q)"

lemma addLoop_ordered:
  "addLoop cm h st cs = Done h' \<Longrightarrow> arena_ok (nat (cm_max cm)) h \<Longrightarrow> st < htop h \<Longrightarrow>
     ordered h \<Longrightarrow> ordered h'"
proof (induction cs arbitrary: h st)
  case Nil
  then have h': "h' = h\<lparr>store := (store h)(st := (store h st)\<lparr>isWord := True\<rparr>)\<rparr>"
    by simp
  from Nil.prems(4) show ?case unfolding ordered_def h' by auto
next
  case (Cons c cs)
  let ?N = "nat (cm_max cm)"
  let ?i = "cm (of_nat c) - 1"
  from Cons.prems(1) have c: "c < 256" and i0: "0 \<le> ?i"
    and i1: "?i < int (length (children (store h st)))"
    by (auto simp: Let_def split: if_splits)
  from Cons.prems(2,3) have len: "length (children (store h st)) = ?N"
    by (simp add: arena_ok_def)
  show ?case
  proof (cases "children (store h st) ! nat ?i")
    case (Some q)
    with Cons.prems(1) c i0 i1 have run: "addLoop cm h q cs = Done h'"
      by (simp add: Let_def)
    from i0 i1 have "nat ?i < length (children (store h st))" by linarith
    from nth_mem [OF this] Some have "Some q \<in> set (children (store h st))" by simp
    with Cons.prems(2,3) have q: "q < htop h" by (auto simp: arena_ok_def)
    from run Cons.prems(2) q Cons.prems(4) show ?thesis by (rule Cons.IH)
  next
    case None
    with Cons.prems(1) c i0 i1 obtain q h1 where
      new: "newSimple (cm_max cm) h = Done (q, h1)"
      and run: "addLoop cm (h1\<lparr>store := (store h1)
          (st := (store h1 st)\<lparr>children := (children (store h1 st))[nat ?i := Some q]\<rparr>)\<rparr>) q cs
        = Done h'"
      by (auto simp: Let_def split: go.splits)
    define h2 where "h2 = h1\<lparr>store := (store h1)
          (st := (store h1 st)\<lparr>children := (children (store h1 st))[nat ?i := Some q]\<rparr>)\<rparr>"
    have new': "newSimple (int ?N) h = Done (q, h1)"
      using new cm_max_nonneg [of cm] by simp
    from i1 len i0 have iN: "nat ?i < ?N" by linarith
    note step = alloc_step [OF Cons.prems(2) Cons.prems(3) iN None new' h2_def]
    from run have run2: "addLoop cm h2 q cs = Done h'" by (simp add: h2_def)
    from newSimple_Done [OF new'] have q: "q = htop h" and t1: "htop h1 = Suc (htop h)"
      and s1: "store h1 = (store h)(htop h := \<lparr>isWord = False, children = replicate ?N None\<rparr>)"
      by simp_all
    from Cons.prems(3) q have ne: "st \<noteq> q" by simp
    have o2: "ordered h2"
      unfolding ordered_def
    proof (intro allI impI)
      fix p x assume p: "p < htop h2" and x: "Some x \<in> set (children (store h2 p))"
      from p have p': "p < Suc (htop h)" by (simp add: h2_def t1)
      show "p < x"
      proof (cases "p = st")
        case True
        with x have "Some x \<in> set ((children (store h st))[nat ?i := Some q])"
          using ne q by (simp add: h2_def s1)
        with set_update_subset_insert [of "children (store h st)" "nat ?i" "Some q"]
        have "x = q \<or> Some x \<in> set (children (store h st))" by auto
        with Cons.prems(3,4) q True show ?thesis by (auto simp: ordered_def)
      next
        case False
        show ?thesis
        proof (cases "p = htop h")
          case True
          with x False have "Some x \<in> set (replicate ?N (None :: addr option))"
            by (simp add: h2_def s1)
          then show ?thesis by simp
        next
          case F: False
          with p' have "p < htop h" by simp
          moreover from x False F have "Some x \<in> set (children (store h p))"
            by (simp add: h2_def s1)
          ultimately show ?thesis using Cons.prems(4) by (auto simp: ordered_def)
        qed
      qed
    qed
    from run2 step(1) step(2) o2 show ?thesis by (rule Cons.IH)
  qed
qed

lemma addWords_ordered:
  "addWords b h ws = Done h' \<Longrightarrow> arena_ok (nat (cm_max (sn_cm b))) h \<Longrightarrow>
     sn_s b = Some r \<Longrightarrow> r < htop h \<Longrightarrow> ordered h \<Longrightarrow> ordered h'"
proof (induction ws arbitrary: h)
  case Nil
  then show ?case by simp
next
  case (Cons w ws)
  from Cons.prems(1) obtain e h1 where a: "AddWord b h w = Done (e, h1)"
    and rest: "addWords b h1 ws = Done h'"
    by (auto split: go.splits)
  note ok1 = AddWord_ok [OF a Cons.prems(2) Cons.prems(3) Cons.prems(4)]
  have "ordered h1"
  proof (cases e)
    case (Some err)
    with a have "h1 = h" by (auto simp: AddWord_def split: go.splits if_splits option.splits)
    with Cons.prems(5) show ?thesis by simp
  next
    case None
    with a Cons.prems(3) have "addLoop (sn_cm b) h r (runes w) = Done h1"
      by (auto simp: AddWord_def split: go.splits if_splits option.splits)
    from this Cons.prems(2,4,5) show ?thesis by (rule addLoop_ordered)
  qed
  with rest ok1 Cons.prems(3) show ?case by (intro Cons.IH) simp_all
qed

lemma ordered_dies:
  "arena_ok N h \<Longrightarrow> ordered h \<Longrightarrow> p < htop h \<Longrightarrow> htop h - p \<le> length is \<Longrightarrow>
     beh h p is = Dead \<or> beh h p is = Fault"
proof (induction "is" arbitrary: p)
  case Nil
  then show ?case by simp
next
  case (Cons i "is")
  show ?case
  proof (cases "i < 0 \<or> int (length (children (store h p))) \<le> i")
    case True
    then show ?thesis by simp
  next
    case False
    then have il: "nat i < length (children (store h p))" by linarith
    show ?thesis
    proof (cases "children (store h p) ! nat i")
      case None
      with False show ?thesis by simp
    next
      case (Some q)
      with nth_mem [OF il] have m: "Some q \<in> set (children (store h p))" by simp
      with Cons.prems(1,3) have q: "q < htop h" by (auto simp: arena_ok_def)
      from m Cons.prems(2,3) have "p < q" by (auto simp: ordered_def)
      with Cons.prems(4) q have "htop h - q \<le> length is" by simp
      from Cons.IH [OF Cons.prems(1,2) q this] False Some show ?thesis by simp
    qed
  qed
qed

lemma ordered_bounded:
  assumes "arena_ok N h" and "ordered h" and "p < htop h" and "htop h \<le> n"
  shows "bounded h p n"
  unfolding bounded_def
proof (intro allI impI)
  fix "is" :: "int list" assume "n \<le> length is"
  with assms(4) have "htop h - p \<le> length is" by simp
  with assms(1,2,3) show "beh h p is = Dead \<or> beh h p is = Fault" by (rule ordered_dies)
qed

text \<open>C2. For a trie built by \<open>AddWord\<close> calls on a fresh builder, \<open>scBuilder.Root\<close> returns:
  the recursions of \<open>compressNode\<close>, \<open>hash\<close> and \<open>nodesEqual\<close> end, a budget above the number
  of nodes being enough. The root it returns answers \<open>IsWord\<close> (and \<open>IsPrefix\<close>) after
  following any byte string exactly as the uncompressed root did before the compression
  ran: the same boolean, or a panic on both sides where the walk leaves the trie.\<close>

theorem compression_keeps_is_word:
  assumes "NewSimpleBuilder cm emptyHeap = Done (b, h0)"
    and "addWords b h0 ws = Done h"
    and "htop h < k"
  shows "\<exists>r h'. sc_Root k b h = Done (r, h')
    \<and> (\<forall>w. isWordAfter h' r w = isWordAfter h (simple_Root b) w
          \<and> isPrefixAfter h' r w = isPrefixAfter h (simple_Root b) w)"
proof -
  let ?N = "nat (cm_max cm)"
  note nb = NewSimpleBuilder_ok [OF assms(1)]
  from nb(2,3) have b: "b = \<lparr>sn_s = Some 0, sn_cm = cm\<rparr>" by (cases b) simp
  from addWords_ok [OF assms(2)] nb
  have ok: "arena_ok ?N h" and r0: "0 < htop h" by simp_all
  from assms(1) have st0: "children (store h0 0) = replicate ?N None" and top0: "htop h0 = 1"
    by (auto simp: NewSimpleBuilder_def newSimple_def emptyHeap_def split: if_splits)
  have ord0: "ordered h0"
    unfolding ordered_def by (simp add: top0 st0)
  from nb(1) have ok0: "arena_ok (nat (cm_max (sn_cm b))) h0" by (simp add: nb(3))
  from assms(2) ok0 nb(2) nb(4) ord0 have ord: "ordered h" by (rule addWords_ordered)
  from assms(3) obtain k' where k: "k = Suc k'" and k': "htop h \<le> k'"
    by (cases k) simp_all
  from ok ord r0 k' have bd: "bounded h 0 k'" by (rule ordered_bounded)
  have ct: "ct_ok h emptyCompressTable"
    by (simp add: ct_ok_def emptyCompressTable_def)
  from r0 bd have "\<forall>a. Some 0 = Some a \<longrightarrow> a < htop h \<and> bounded h a k'" by simp
  from compressNode_total [OF ok ct this] obtain res where
    res: "compressNode (Suc k') (Some 0) h emptyCompressTable = Done res" by blast
  obtain x h' ct' where "res = (x, h', ct')" by (cases res)
  with res have run: "sc_Root k b h = Done (SimplePtr (Some \<lparr>sn_s = x, sn_cm = cm\<rparr>), h')"
    by (simp add: sc_Root_def compress_def b k del: compressNode.simps)
  have "isWordAfter h' (SimplePtr (Some \<lparr>sn_s = x, sn_cm = cm\<rparr>)) w
        = isWordAfter h (simple_Root b) w
      \<and> isPrefixAfter h' (SimplePtr (Some \<lparr>sn_s = x, sn_cm = cm\<rparr>)) w
        = isPrefixAfter h (simple_Root b) w" for w
    using assms(1,2) run by (rule sc_Root_answers)
  with run show ?thesis by blast
qed

section \<open>Concrete tries\<close>


lemma replicate_numeral: "replicate (numeral k) x = x # replicate (pred_numeral k) x"
  by (simp add: numeral_eq_Suc)

lemma list_update_Cons_numeral: "(x # xs)[numeral k := y] = x # xs[pred_numeral k := y]"
  by (simp add: numeral_eq_Suc)

lemmas eval_build = ReadWords_simple_def ReadWords_sc_def ReadWords_packed_def
  NewSimpleBuilder_def newSimple_def emptyHeap_def simple_Root_def
  AddWord_def runes_def decoderune_def Let_def replicate_numeral list_update_Cons_numeral

lemmas eval_compress = sc_Root_def packed_Root_def compress_def ct_insertNode_def
  emptyCompressTable_def upt_rec Let_def replicate_numeral list_update_Cons_numeral

lemmas eval_pack = fromSimple_def findIndex_def nextGap_def nextGapLoop.simps
  scanLoop.simps checkSlots.simps ensureIndex_def ensureLoop.simps SetKey_def SetValue_def
  Key_def Value_def Let_def replicate_numeral list_update_Cons_numeral

lemmas eval_node = Follow_def IsWord_def IsPrefix_def simple_Follow_def simple_IsWord_def
  simple_IsPrefix_def packed_Follow_def packed_IsWord_def packed_IsPrefix_def indexAt_def
  badNode_def Key_def Value_def Let_def

lemmas eval_nav = NewNavigator_def nav_IsWord_def nav_IsPrefix_def nav_Word_def lastNode_def
  Push_def Pop_def bytesAZ_def upt_rec

lemma alpha_A: "NewAlphaCharMap 65 = 1"
  by (simp add: NewAlphaCharMap_def upt_rec)

lemma alpha_B: "NewAlphaCharMap 66 = 2"
  by (simp add: NewAlphaCharMap_def upt_rec)

lemma alpha_hyphen_27: "NewAlphaCharMap 45 = 27"
  by (simp add: NewAlphaCharMap_def upt_rec)

text \<open>C10. In the arena encoding (and the suffix-compressed one, which shares its node
  type) the value \<open>Follow\<close> returns for a missing transition is the nil interface value,
  and every method called on it panics: on the empty trie over the reference alphabet,
  \<open>Follow\<close> of the root along \<open>A\<close> returns nil, and \<open>IsPrefix\<close>, \<open>IsWord\<close> and \<open>Follow\<close> on
  that result all panic, both for \<open>simpleNode.Root\<close> and for \<open>scBuilder.Root\<close>. (The packed
  encoding's sentinel is absorbing, see \<open>packed_sentinel_absorbing\<close>.)\<close>

theorem simple_sentinel_panics:
  "case NewSimpleBuilder NewAlphaCharMap emptyHeap of
     Done (b, h) \<Rightarrow>
       Follow h (simple_Root b) 65 = Done NilTrieNode
       \<and> IsPrefix h NilTrieNode = Panic
       \<and> IsWord h NilTrieNode = Panic
       \<and> Follow h NilTrieNode 65 = Panic
       \<and> (case sc_Root (Suc (Suc 0)) b h of
            Done (r, h1) \<Rightarrow> Follow h1 r 65 = Done NilTrieNode
          | Panic \<Rightarrow> False | OutOfFuel \<Rightarrow> False)
   | Panic \<Rightarrow> False | OutOfFuel \<Rightarrow> False"
  apply (simp add: eval_build cm_max_alpha)
  apply (simp add: eval_node alpha_A)
  apply (simp add: eval_compress)
  apply (simp add: eval_node alpha_A)
  done

text \<open>C7. A navigator over the arena encoding that has been pushed along a missing
  transition holds the nil interface value on top of its node stack. In that state
  \<open>IsWord\<close> and \<open>IsPrefix\<close> panic, and so does a further \<open>Push\<close>: the push never returns,
  so no pop follows it. (Where \<open>Push\<close> returns, \<open>Pop\<close> restores the navigator exactly:
  \<open>Push_Pop\<close>.)\<close>

theorem push_after_dead_end_panics:
  "case NewSimpleBuilder NewAlphaCharMap emptyHeap of
     Done (b, h) \<Rightarrow> (case Push h 65 (NewNavigator (simple_Root b)) of
         Done n1 \<Rightarrow>
           nav_Word n1 = [65] \<and> Push h 66 n1 = Panic
           \<and> nav_IsWord h n1 = Panic \<and> nav_IsPrefix h n1 = Panic
       | Panic \<Rightarrow> False | OutOfFuel \<Rightarrow> False)
   | Panic \<Rightarrow> False | OutOfFuel \<Rightarrow> False"
  apply (simp add: eval_build cm_max_alpha)
  apply (simp add: eval_nav eval_node alpha_A)
  done


lemma packed_A_enumeration:
  "\<exists>r h n'. ReadWords_packed (Suc (Suc (Suc 0))) NewAlphaCharMap [[65]] = Done (r, h)
     \<and> allValidWords h (Suc (Suc (Suc 0))) (NewNavigator r) = Done (n', [[65]])"
  apply (simp add: eval_build cm_max_alpha alpha_A)
  apply (simp add: eval_compress)
  apply (simp add: eval_pack)
  apply (simp add: eval_nav eval_node NewAlphaCharMap_def)
  done

theorem enumeration_restores_navigator_witness:
  "case ReadWords_packed (Suc (Suc (Suc 0))) NewAlphaCharMap [[65]] of
     Done (r, h) \<Rightarrow>
       allValidWords h (Suc (Suc (Suc 0))) (NewNavigator r) = Done (NewNavigator r, [[65]])
       \<and> nav_Count h (Suc (Suc (Suc 0))) (NewNavigator r) = Done (NewNavigator r, 1)
   | Panic \<Rightarrow> False | OutOfFuel \<Rightarrow> False"
proof -
  from packed_A_enumeration obtain r h n' where
    a: "ReadWords_packed (Suc (Suc (Suc 0))) NewAlphaCharMap [[65]] = Done (r, h)"
    and b: "allValidWords h (Suc (Suc (Suc 0))) (NewNavigator r) = Done (n', [[65]])"
    by blast
  from enumeration_restores_navigator [OF b] a b show ?thesis
    by simp
qed

text \<open>C3. \<open>allValidWords\<close> descends along the bytes \<open>A\<close> to \<open>Z\<close> only. In the packed trie
  over the reference alphabet that holds the words \<open>A\<close> and \<open>-\<close>, the hyphen is a word
  (\<open>Follow\<close> along byte 45 reaches a node with \<open>IsWord\<close>), but \<open>All\<close> from the root returns
  only \<open>A\<close> and \<open>Count\<close> returns 1.\<close>

theorem enumeration_misses_hyphen:
  "case ReadWords_packed (Suc (Suc (Suc 0))) NewAlphaCharMap [[65], [45]] of
     Done (r, h) \<Rightarrow>
       (case Follow h r 45 of Done r1 \<Rightarrow> IsWord h r1 = Done True
        | Panic \<Rightarrow> False | OutOfFuel \<Rightarrow> False)
       \<and> (case nav_All h (Suc (Suc (Suc 0))) (NewNavigator r) [] of
            Done (n, ws) \<Rightarrow> ws = [[65]] | Panic \<Rightarrow> False | OutOfFuel \<Rightarrow> False)
       \<and> (case nav_Count h (Suc (Suc (Suc 0))) (NewNavigator r) of
            Done (n, c) \<Rightarrow> c = 1 | Panic \<Rightarrow> False | OutOfFuel \<Rightarrow> False)
   | Panic \<Rightarrow> False | OutOfFuel \<Rightarrow> False"
  apply (simp add: eval_build cm_max_alpha alpha_A alpha_hyphen_27)
  apply (simp add: eval_compress)
  apply (simp add: eval_pack)
  apply (simp add: nav_All_def nav_Count_def eval_nav eval_node NewAlphaCharMap_def)
  done

text \<open>C4. The string of the three bytes E2 82 AC (the UTF-8 encoding of U+20AC) holds
  only bytes the reference alphabet rejects, yet \<open>AddWord\<close> does not return an error:
  \<open>range\<close> yields the code point 8364, and indexing the 256-entry alphabet map with it
  panics.\<close>

theorem add_word_non_latin1_panics:
  "case NewSimpleBuilder NewAlphaCharMap emptyHeap of
     Done (b, h) \<Rightarrow>
       runes [226, 130, 172] = [8364]
       \<and> NewAlphaCharMap 226 = 0 \<and> NewAlphaCharMap 130 = 0 \<and> NewAlphaCharMap 172 = 0
       \<and> AddWord b h [226, 130, 172] = Panic
   | Panic \<Rightarrow> False | OutOfFuel \<Rightarrow> False"
  apply (simp add: eval_build cm_max_alpha)
  apply (simp add: NewAlphaCharMap_def)
  done

text \<open>C1. On the trie holding the single word \<open>A\<close>, following the byte \<open>B\<close> from the root
  of the suffix-compressed encoding gives the nil interface value, on which \<open>IsWord\<close> and
  \<open>IsPrefix\<close> panic; the same walk in the packed encoding gives the sentinel, on which
  both return false.\<close>

theorem packed_and_compressed_differ_off_the_trie:
  "(case ReadWords_sc (Suc (Suc (Suc 0))) NewAlphaCharMap [[65]] of
      Done (r, h) \<Rightarrow> (case Follow h r 66 of
          Done s \<Rightarrow> IsWord h s = Panic \<and> IsPrefix h s = Panic
        | Panic \<Rightarrow> False | OutOfFuel \<Rightarrow> False)
    | Panic \<Rightarrow> False | OutOfFuel \<Rightarrow> False)
   \<and> (case ReadWords_packed (Suc (Suc (Suc 0))) NewAlphaCharMap [[65]] of
      Done (r, h) \<Rightarrow> (case Follow h r 66 of
          Done s \<Rightarrow> IsWord h s = Done False \<and> IsPrefix h s = Done False
        | Panic \<Rightarrow> False | OutOfFuel \<Rightarrow> False)
    | Panic \<Rightarrow> False | OutOfFuel \<Rightarrow> False)"
  apply (simp add: eval_build cm_max_alpha alpha_A)
  apply (simp add: eval_compress)
  apply (simp add: eval_pack)
  apply (simp add: eval_node alpha_B)
  done

lemma readd_A_runs:
  "\<exists>b h0 h1 h2 h. NewSimpleBuilder NewAlphaCharMap emptyHeap = Done (b, h0)
     \<and> addWords b h0 [[65, 66]] = Done h1 \<and> AddWord b h1 [65] = Done (None, h2)
     \<and> addWords b h2 [[66]] = Done h"
  apply (simp add: eval_build cm_max_alpha alpha_A alpha_B)
  done

theorem add_word_idempotent_witness:
  "case NewSimpleBuilder NewAlphaCharMap emptyHeap of
     Done (b, h0) \<Rightarrow> (case addWords b h0 [[65, 66]] of
         Done h1 \<Rightarrow> (case AddWord b h1 [65] of
             Done (e, h2) \<Rightarrow> e = None \<and> (case addWords b h2 [[66]] of
                 Done h \<Rightarrow> AddWord b h [65] = Done (None, h)
               | Panic \<Rightarrow> False | OutOfFuel \<Rightarrow> False)
           | Panic \<Rightarrow> False | OutOfFuel \<Rightarrow> False)
       | Panic \<Rightarrow> False | OutOfFuel \<Rightarrow> False)
   | Panic \<Rightarrow> False | OutOfFuel \<Rightarrow> False"
proof -
  from readd_A_runs obtain b h0 h1 h2 h where
    a: "NewSimpleBuilder NewAlphaCharMap emptyHeap = Done (b, h0)"
    and w: "addWords b h0 [[65, 66]] = Done h1" and c: "AddWord b h1 [65] = Done (None, h2)"
    and d: "addWords b h2 [[66]] = Done h"
    by blast
  from add_word_idempotent [OF a w c d] a w c d show ?thesis by simp
qed



lemma repack_A_runs:
  "\<exists>r h t idx t' ix' i t1.
     ReadWords_packed (Suc (Suc (Suc 0))) NewAlphaCharMap [[65]]
       = Done (PackedVal \<lparr>pn_tbl = Some t, pn_idx = r\<rparr>, h)
     \<and> insertNode h (Suc (Suc (Suc 0))) 0 t (\<lambda>_. 0) = Done (idx, t', ix')
     \<and> findIndex t (store h 0) = Done (i, t1)"
  apply (simp add: eval_build cm_max_alpha alpha_A)
  apply (simp add: eval_compress)
  apply (simp add: eval_pack)
  done

theorem packed_keys_written_once_witness:
  "case ReadWords_packed (Suc (Suc (Suc 0))) NewAlphaCharMap [[65]] of
     Done (r, h) \<Rightarrow> (case r of
         PackedVal p \<Rightarrow> (case pn_tbl p of
             Some t \<Rightarrow>
               (case insertNode h (Suc (Suc (Suc 0))) 0 t (\<lambda>_. 0) of
                  Done (idx, t', ix') \<Rightarrow> keys_kept t t'
                | Panic \<Rightarrow> False | OutOfFuel \<Rightarrow> False)
               \<and> (case findIndex t (store h 0) of
                  Done (i, t1) \<Rightarrow> placeable t1 (store h 0) i \<and> grown t t1
                | Panic \<Rightarrow> False | OutOfFuel \<Rightarrow> False)
           | None \<Rightarrow> False)
       | SimplePtr q \<Rightarrow> False | NilTrieNode \<Rightarrow> False)
   | Panic \<Rightarrow> False | OutOfFuel \<Rightarrow> False"
proof -
  from repack_A_runs obtain r h t idx t' ix' i t1 where
    a: "ReadWords_packed (Suc (Suc (Suc 0))) NewAlphaCharMap [[65]]
       = Done (PackedVal \<lparr>pn_tbl = Some t, pn_idx = r\<rparr>, h)"
    and b: "insertNode h (Suc (Suc (Suc 0))) 0 t (\<lambda>_. 0) = Done (idx, t', ix')"
    and c: "findIndex t (store h 0) = Done (i, t1)"
    by blast
  from packed_keys_written_once [of h "Suc (Suc (Suc 0))" 0 t "\<lambda>_. 0" idx t' ix' "store h 0" i t1]
    a b c show ?thesis
    by simp
qed

lemma compress_AB_runs:
  "\<exists>b h0 h. NewSimpleBuilder NewAlphaCharMap emptyHeap = Done (b, h0)
     \<and> addWords b h0 [[65], [66]] = Done h
     \<and> htop h < Suc (Suc (Suc (Suc 0)))
     \<and> isWordAfter h (simple_Root b) [66] = Done True
     \<and> isWordAfter h (simple_Root b) [66, 65] = Panic"
  apply (simp add: eval_build cm_max_alpha alpha_A alpha_B)
  apply (simp add: isWordAfter_def eval_node alpha_A alpha_B)
  done

theorem compression_keeps_is_word_witness:
  "case NewSimpleBuilder NewAlphaCharMap emptyHeap of
     Done (b, h0) \<Rightarrow> (case addWords b h0 [[65], [66]] of
         Done h \<Rightarrow> (case sc_Root (Suc (Suc (Suc (Suc 0)))) b h of
             Done (r, h') \<Rightarrow>
               isWordAfter h (simple_Root b) [66] = Done True
               \<and> isWordAfter h' r [66] = Done True
               \<and> isWordAfter h (simple_Root b) [66, 65] = Panic
               \<and> isWordAfter h' r [66, 65] = Panic
           | Panic \<Rightarrow> False | OutOfFuel \<Rightarrow> False)
       | Panic \<Rightarrow> False | OutOfFuel \<Rightarrow> False)
   | Panic \<Rightarrow> False | OutOfFuel \<Rightarrow> False"
proof -
  from compress_AB_runs obtain b h0 h where
    a: "NewSimpleBuilder NewAlphaCharMap emptyHeap = Done (b, h0)"
    and w: "addWords b h0 [[65], [66]] = Done h"
    and k: "htop h < Suc (Suc (Suc (Suc 0)))"
    and e1: "isWordAfter h (simple_Root b) [66] = Done True"
    and e2: "isWordAfter h (simple_Root b) [66, 65] = Panic"
    by blast
  from compression_keeps_is_word [OF a w k] obtain r h' where
    c: "sc_Root (Suc (Suc (Suc (Suc 0)))) b h = Done (r, h')"
    and same: "\<And>v. isWordAfter h' r v = isWordAfter h (simple_Root b) v"
    by blast
  from same [of "[66]"] same [of "[66, 65]"] a w c e1 e2
  show ?thesis by simp
qed

text \<open>The trie holding \<open>A\<close> and \<open>B\<close>, packed: \<open>B\<close> is a word on both sides, and after \<open>BA\<close>
  the naive root panics where the packed root says no.\<close>

lemma pack_AB_runs:
  "\<exists>b h0 h p h' t. NewSimpleBuilder NewAlphaCharMap emptyHeap = Done (b, h0)
     \<and> addWords b h0 [[65], [66]] = Done h
     \<and> packed_Root (Suc (Suc (Suc 0))) b h = Done (PackedVal p, h')
     \<and> pn_tbl p = Some t \<and> length (cells t) \<le> 16777216
     \<and> isWordAfter h' (PackedVal p) [66] = Done True
     \<and> isWordAfter h (simple_Root b) [66, 65] = Panic"
  apply (simp add: eval_build cm_max_alpha alpha_A alpha_B)
  apply (simp add: eval_compress)
  apply (simp add: eval_pack)
  apply (simp add: isWordAfter_def eval_node alpha_A alpha_B)
  done

theorem packed_root_answers_witness:
  "case NewSimpleBuilder NewAlphaCharMap emptyHeap of
     Done (b, h0) \<Rightarrow> (case addWords b h0 [[65], [66]] of
         Done h \<Rightarrow> (case packed_Root (Suc (Suc (Suc 0))) b h of
             Done (r, h') \<Rightarrow>
               isWordAfter h (simple_Root b) [66] = Done True
               \<and> isWordAfter h' r [66] = Done True
               \<and> isWordAfter h (simple_Root b) [66, 65] = Panic
               \<and> isWordAfter h' r [66, 65] = Done False
           | Panic \<Rightarrow> False | OutOfFuel \<Rightarrow> False)
       | Panic \<Rightarrow> False | OutOfFuel \<Rightarrow> False)
   | Panic \<Rightarrow> False | OutOfFuel \<Rightarrow> False"
proof -
  from pack_AB_runs obtain b h0 h p h' t where
    a: "NewSimpleBuilder NewAlphaCharMap emptyHeap = Done (b, h0)"
    and w: "addWords b h0 [[65], [66]] = Done h"
    and c: "packed_Root (Suc (Suc (Suc 0))) b h = Done (PackedVal p, h')"
    and t: "pn_tbl p = Some t" and sz: "length (cells t) \<le> 16777216"
    and e1: "isWordAfter h' (PackedVal p) [66] = Done True"
    and e2: "isWordAfter h (simple_Root b) [66, 65] = Panic"
    by blast
  have small: "cm_max NewAlphaCharMap \<le> 254" by (simp add: cm_max_alpha)
  note ans = packed_root_answers [OF a w c t sz alpha_nonneg small]
  from ans [of "[66]"] e1 have "isWordAfter h (simple_Root b) [66] = Done True"
    by (simp add: panic_as_false_def split: go.splits)
  moreover from ans [of "[66, 65]"] e2 have "isWordAfter h' (PackedVal p) [66, 65] = Done False"
    by (simp add: panic_as_false_def)
  ultimately show ?thesis using a w c e1 e2 by simp
qed

end
